theory Spec2Isabelle
  imports Complex_Main "HOL-Library.Log_Nat"
begin

section \<open>chess\_engine.py: colours, piece types, pieces and the board\<close>

text \<open>
  The Python objects are mutable and shared: a \<open>Piece\<close> is referred to from the board's
  list, from local variables and from \<open>Move\<close> objects, and \<open>list.remove\<close> finds an
  element by identity (the class defines no \<open>__eq__\<close>). The model therefore keeps an
  explicit store: a reference is a natural number, the heap maps references to the
  pieces' fields, and the board's \<open>pieces\<close> is a list of references.
\<close>

datatype Color = WHITE | BLACK

fun opposite :: "Color \<Rightarrow> Color" where
  "opposite c = (if c = WHITE then BLACK else WHITE)"

datatype PieceType = PAWN | KNIGHT | BISHOP | ROOK | QUEEN | KING

fun PIECE_VALUES :: "PieceType \<Rightarrow> int" where
  "PIECE_VALUES PAWN = 1"
| "PIECE_VALUES KNIGHT = 3"
| "PIECE_VALUES BISHOP = 3"
| "PIECE_VALUES ROOK = 5"
| "PIECE_VALUES QUEEN = 9"
| "PIECE_VALUES KING = 0"

text \<open>
  The fields of a \<open>Piece\<close>. The attribute \<open>value\<close> is assigned once, in \<open>__init__\<close>, as
  \<open>PIECE_VALUES[piece_type]\<close>, and neither it nor \<open>type\<close> is assigned anywhere else in
  the repository, so it is read here as a function of the type.
\<close>

record Piece =
  ptype :: PieceType
  color :: Color
  position :: string
  move_count :: int

definition piece_value :: "Piece \<Rightarrow> int" where
  "piece_value p = PIECE_VALUES (ptype p)"

definition new_Piece :: "PieceType \<Rightarrow> Color \<Rightarrow> string \<Rightarrow> Piece" where
  "new_Piece t c pos = \<lparr>ptype = t, color = c, position = pos, move_count = 0\<rparr>"

type_synonym ref = nat

record ChessBoard =
  heap :: "ref \<Rightarrow> Piece"
  pieces :: "ref list"
  move_history :: "string list"
  white_king_moved :: bool
  black_king_moved :: bool
  white_rook_a1_moved :: bool
  white_rook_h1_moved :: bool
  black_rook_a8_moved :: bool
  black_rook_h8_moved :: bool

definition FILES :: "char list" where
  "FILES = ''abcdefgh''"

definition RANKS :: "char list" where
  "RANKS = ''12345678''"

text \<open>
  \<open>self.pieces.append(Piece(...))\<close>: a new object is allocated and its reference is
  appended. Every list built by \<open>setup_starting_position\<close> starts from \<open>[]\<close> and only
  grows by such appends, so the length of the list is a reference not yet in it.
\<close>

definition append_new :: "Piece \<Rightarrow> ChessBoard \<Rightarrow> ChessBoard" where
  "append_new p b =
     b\<lparr>heap := (heap b)(length (pieces b) := p), pieces := pieces b @ [length (pieces b)]\<rparr>"

definition setup_starting_position :: "ChessBoard \<Rightarrow> ChessBoard" where
  "setup_starting_position b =
     (let b0 = b\<lparr>pieces := []\<rparr>;
          b1 = foldl (\<lambda>s f. append_new (new_Piece PAWN WHITE [f, CHR ''2'']) s) b0 FILES;
          b2 = foldl (\<lambda>s p. append_new p s) b1
                 [new_Piece ROOK WHITE ''a1'', new_Piece KNIGHT WHITE ''b1'',
                  new_Piece BISHOP WHITE ''c1'', new_Piece QUEEN WHITE ''d1'',
                  new_Piece KING WHITE ''e1'', new_Piece BISHOP WHITE ''f1'',
                  new_Piece KNIGHT WHITE ''g1'', new_Piece ROOK WHITE ''h1''];
          b3 = foldl (\<lambda>s f. append_new (new_Piece PAWN BLACK [f, CHR ''7'']) s) b2 FILES
      in foldl (\<lambda>s p. append_new p s) b3
                 [new_Piece ROOK BLACK ''a8'', new_Piece KNIGHT BLACK ''b8'',
                  new_Piece BISHOP BLACK ''c8'', new_Piece QUEEN BLACK ''d8'',
                  new_Piece KING BLACK ''e8'', new_Piece BISHOP BLACK ''f8'',
                  new_Piece KNIGHT BLACK ''g8'', new_Piece ROOK BLACK ''h8''])"

text \<open>\<open>ChessBoard()\<close>: the constructor. No object exists before it runs.\<close>

definition new_ChessBoard :: ChessBoard where
  "new_ChessBoard =
     setup_starting_position
       \<lparr>heap = (\<lambda>_. new_Piece PAWN WHITE []), pieces = [], move_history = [],
        white_king_moved = False, black_king_moved = False,
        white_rook_a1_moved = False, white_rook_h1_moved = False,
        black_rook_a8_moved = False, black_rook_h8_moved = False\<rparr>"

definition pos_of :: "ChessBoard \<Rightarrow> ref \<Rightarrow> string" where
  "pos_of b r = position (heap b r)"

definition get_piece_at :: "ChessBoard \<Rightarrow> string \<Rightarrow> ref option" where
  "get_piece_at b pos = find (\<lambda>r. pos_of b r = pos) (pieces b)"

definition get_pieces_by_color :: "ChessBoard \<Rightarrow> Color \<Rightarrow> ref list" where
  "get_pieces_by_color b c = filter (\<lambda>r. color (heap b r) = c) (pieces b)"

text \<open>The optional \<open>color\<close> argument is an enum member when given, which is truthy.\<close>

definition get_pieces_by_type :: "ChessBoard \<Rightarrow> PieceType \<Rightarrow> Color option \<Rightarrow> ref list" where
  "get_pieces_by_type b t co =
     (case co of
        Some c \<Rightarrow> filter (\<lambda>r. ptype (heap b r) = t \<and> color (heap b r) = c) (pieces b)
      | None \<Rightarrow> filter (\<lambda>r. ptype (heap b r) = t) (pieces b))"

text \<open>
  \<open>move_piece\<close> returns the success flag and the board after the call. The target found
  at the destination is removed from the list by identity (\<open>remove1\<close> on references),
  and only then are the mover's fields assigned, whether or not it is still in the list.
\<close>

definition move_piece :: "ChessBoard \<Rightarrow> string \<Rightarrow> string \<Rightarrow> bool \<times> ChessBoard" where
  "move_piece b from_p to_p =
     (case get_piece_at b from_p of
        None \<Rightarrow> (False, b)
      | Some pc \<Rightarrow>
          (let b1 = (case get_piece_at b to_p of
                       None \<Rightarrow> b
                     | Some target \<Rightarrow> b\<lparr>pieces := remove1 target (pieces b)\<rparr>);
               p = heap b1 pc;
               b2 = b1\<lparr>heap := (heap b1)(pc := p\<lparr>position := to_p\<rparr>)\<rparr>;
               p2 = heap b2 pc;
               b3 = b2\<lparr>heap := (heap b2)(pc := p2\<lparr>move_count := move_count p2 + 1\<rparr>)\<rparr>
           in (True, b3\<lparr>move_history := move_history b3 @ [from_p @ ''-'' @ to_p]\<rparr>)))"

definition is_valid_position :: "string \<Rightarrow> bool" where
  "is_valid_position pos =
     (if length pos \<noteq> 2 then False
      else (pos ! 0) \<in> set FILES \<and> (pos ! 1) \<in> set RANKS)"

definition reset_board :: "ChessBoard \<Rightarrow> ChessBoard" where
  "reset_board b =
     setup_starting_position
       (b\<lparr>pieces := [], move_history := [],
          white_king_moved := False, black_king_moved := False,
          white_rook_a1_moved := False, white_rook_h1_moved := False,
          black_rook_a8_moved := False, black_rook_h8_moved := False\<rparr>)"

section \<open>move\_validator.py: coordinates\<close>

datatype error = IndexError | ValueError | AttributeError | OverflowError

text \<open>
  \<open>int(s)\<close> on a one-character string: a decimal digit gives its value, any other
  character raises \<open>ValueError\<close>. The model's characters are the 256 of \<open>char\<close>,
  among which \<open>0\<close> to \<open>9\<close> are the only decimal digits.
\<close>

definition ord :: "char \<Rightarrow> int" where
  "ord c = of_char c"

definition chr :: "int \<Rightarrow> char" where
  "chr n = char_of n"

definition int_of_char :: "char \<Rightarrow> error + int" where
  "int_of_char c =
     (if ord CHR ''0'' \<le> ord c \<and> ord c \<le> ord CHR ''9'' then Inr (ord c - ord CHR ''0'')
      else Inl ValueError)"

text \<open>
  \<open>pos_to_coords\<close> indexes the string twice: \<open>position[0]\<close> and \<open>position[1]\<close> raise
  \<open>IndexError\<close> on a string that is too short; characters after the second are ignored.
  There is no range check.
\<close>

definition pos_to_coords :: "string \<Rightarrow> error + (int \<times> int)" where
  "pos_to_coords pos =
     (case pos of
        [] \<Rightarrow> Inl IndexError
      | c0 # rest \<Rightarrow>
          (let file = ord c0 - ord CHR ''a'' in
           case rest of
             [] \<Rightarrow> Inl IndexError
           | c1 # _ \<Rightarrow>
               (case int_of_char c1 of
                  Inl e \<Rightarrow> Inl e
                | Inr d \<Rightarrow> Inr (file, d - 1))))"

text \<open>
  \<open>chr(ord('a') + file) + str(rank + 1)\<close>, reached only for \<open>0 \<le> file, rank \<le> 7\<close>,
  where \<open>str(rank + 1)\<close> is the single digit character.
\<close>

definition coords_to_pos :: "int \<Rightarrow> int \<Rightarrow> string option" where
  "coords_to_pos file rank =
     (if 0 \<le> file \<and> file \<le> 7 \<and> 0 \<le> rank \<and> rank \<le> 7
      then Some [chr (ord CHR ''a'' + file), chr (ord CHR ''0'' + (rank + 1))]
      else None)"

section \<open>move\_validator.py: move generation\<close>

record Move =
  from_pos :: string
  to_pos :: string
  piece :: ref
  captures :: bool
  is_check :: bool
  is_checkmate :: bool
  is_castling :: bool
  promotion :: "PieceType option"

definition new_Move :: "string \<Rightarrow> string \<Rightarrow> ref \<Rightarrow> bool \<Rightarrow> Move" where
  "new_Move f t pc cap =
     \<lparr>from_pos = f, to_pos = t, piece = pc, captures = cap, is_check = False,
      is_checkmate = False, is_castling = False, promotion = None\<rparr>"

text \<open>
  Every generator starts with \<open>pos_to_coords(piece.position)\<close>, the only statement of
  it that can raise; the rest is a computation on the coordinates.
\<close>

definition get_pawn_moves :: "ChessBoard \<Rightarrow> ref \<Rightarrow> error + Move list" where
  "get_pawn_moves b pc =
     (case pos_to_coords (pos_of b pc) of
        Inl e \<Rightarrow> Inl e
      | Inr (file, rank) \<Rightarrow>
          (let direction = (if color (heap b pc) = WHITE then 1 else - 1);
               start_rank = (if color (heap b pc) = WHITE then 1 else 6);
               new_rank = rank + direction;
               forward =
                 (if 0 \<le> new_rank \<and> new_rank \<le> 7 then
                    (case coords_to_pos file new_rank of
                       None \<Rightarrow> []
                     | Some new_pos \<Rightarrow>
                         if get_piece_at b new_pos = None then
                           new_Move (pos_of b pc) new_pos pc False #
                           (if rank = start_rank then
                              (case coords_to_pos file (rank + 2 * direction) of
                                 None \<Rightarrow> []
                               | Some new_pos_2 \<Rightarrow>
                                   if get_piece_at b new_pos_2 = None
                                   then [new_Move (pos_of b pc) new_pos_2 pc False]
                                   else [])
                            else [])
                         else [])
                  else []);
               diagonal =
                 concat (map (\<lambda>file_offset.
                    case coords_to_pos (file + file_offset) (rank + direction) of
                      None \<Rightarrow> []
                    | Some capture_pos \<Rightarrow>
                        (case get_piece_at b capture_pos of
                           None \<Rightarrow> []
                         | Some target \<Rightarrow>
                             if color (heap b target) \<noteq> color (heap b pc)
                             then [new_Move (pos_of b pc) capture_pos pc True]
                             else []))
                    [- 1, 1])
           in Inr (forward @ diagonal)))"

text \<open>
  The body shared by the loops of \<open>get_knight_moves\<close> and \<open>get_king_moves\<close>: the move
  to one offset square, if there is one.
\<close>

definition offset_move :: "ChessBoard \<Rightarrow> ref \<Rightarrow> int \<Rightarrow> int \<Rightarrow> int \<times> int \<Rightarrow> Move list" where
  "offset_move b pc file rank off =
     (case coords_to_pos (file + fst off) (rank + snd off) of
        None \<Rightarrow> []
      | Some new_pos \<Rightarrow>
          (case get_piece_at b new_pos of
             None \<Rightarrow> [new_Move (pos_of b pc) new_pos pc False]
           | Some target \<Rightarrow>
               if color (heap b target) \<noteq> color (heap b pc)
               then [new_Move (pos_of b pc) new_pos pc True]
               else []))"

definition knight_offsets :: "(int \<times> int) list" where
  "knight_offsets =
     [(- 2, - 1), (- 2, 1), (- 1, - 2), (- 1, 2), (1, - 2), (1, 2), (2, - 1), (2, 1)]"

definition get_knight_moves :: "ChessBoard \<Rightarrow> ref \<Rightarrow> error + Move list" where
  "get_knight_moves b pc =
     (case pos_to_coords (pos_of b pc) of
        Inl e \<Rightarrow> Inl e
      | Inr (file, rank) \<Rightarrow> Inr (concat (map (offset_move b pc file rank) knight_offsets)))"

text \<open>
  The inner loop of \<open>get_bishop_moves\<close> and \<open>get_rook_moves\<close>,
  \<open>for distance in range(1, 8)\<close> with its three \<open>break\<close>s: the moves along one
  direction, over the distances still to visit.
\<close>

fun ray :: "ChessBoard \<Rightarrow> ref \<Rightarrow> int \<Rightarrow> int \<Rightarrow> int \<times> int \<Rightarrow> int list \<Rightarrow> Move list" where
  "ray b pc file rank dir [] = []"
| "ray b pc file rank dir (distance # ds) =
     (case coords_to_pos (file + fst dir * distance) (rank + snd dir * distance) of
        None \<Rightarrow> []
      | Some new_pos \<Rightarrow>
          (case get_piece_at b new_pos of
             None \<Rightarrow> new_Move (pos_of b pc) new_pos pc False # ray b pc file rank dir ds
           | Some target \<Rightarrow>
               if color (heap b target) \<noteq> color (heap b pc)
               then [new_Move (pos_of b pc) new_pos pc True]
               else []))"

definition bishop_directions :: "(int \<times> int) list" where
  "bishop_directions = [(- 1, - 1), (- 1, 1), (1, - 1), (1, 1)]"

definition rook_directions :: "(int \<times> int) list" where
  "rook_directions = [(0, 1), (0, - 1), (- 1, 0), (1, 0)]"

definition get_bishop_moves :: "ChessBoard \<Rightarrow> ref \<Rightarrow> error + Move list" where
  "get_bishop_moves b pc =
     (case pos_to_coords (pos_of b pc) of
        Inl e \<Rightarrow> Inl e
      | Inr (file, rank) \<Rightarrow>
          Inr (concat (map (\<lambda>dir. ray b pc file rank dir [1, 2, 3, 4, 5, 6, 7]) bishop_directions)))"

definition get_rook_moves :: "ChessBoard \<Rightarrow> ref \<Rightarrow> error + Move list" where
  "get_rook_moves b pc =
     (case pos_to_coords (pos_of b pc) of
        Inl e \<Rightarrow> Inl e
      | Inr (file, rank) \<Rightarrow>
          Inr (concat (map (\<lambda>dir. ray b pc file rank dir [1, 2, 3, 4, 5, 6, 7]) rook_directions)))"

definition get_queen_moves :: "ChessBoard \<Rightarrow> ref \<Rightarrow> error + Move list" where
  "get_queen_moves b pc =
     (case get_rook_moves b pc of
        Inl e \<Rightarrow> Inl e
      | Inr rm \<Rightarrow> (case get_bishop_moves b pc of Inl e \<Rightarrow> Inl e | Inr bm \<Rightarrow> Inr (rm @ bm)))"

definition king_directions :: "(int \<times> int) list" where
  "king_directions =
     [(- 1, - 1), (- 1, 0), (- 1, 1), (0, - 1), (0, 1), (1, - 1), (1, 0), (1, 1)]"

definition get_king_moves :: "ChessBoard \<Rightarrow> ref \<Rightarrow> error + Move list" where
  "get_king_moves b pc =
     (case pos_to_coords (pos_of b pc) of
        Inl e \<Rightarrow> Inl e
      | Inr (file, rank) \<Rightarrow> Inr (concat (map (offset_move b pc file rank) king_directions)))"

text \<open>
  The \<open>if\<close>/\<open>elif\<close> chain on \<open>piece.type\<close> that \<open>get_legal_moves\<close>, \<open>is_attacked\<close>,
  \<open>detect_forks\<close> and \<open>detect_hanging_pieces\<close> each spell out. The enum has six
  members, so the chain's final \<open>else\<close> is never taken.
\<close>

definition moves_for :: "ChessBoard \<Rightarrow> ref \<Rightarrow> error + Move list" where
  "moves_for b pc =
     (case ptype (heap b pc) of
        PAWN \<Rightarrow> get_pawn_moves b pc
      | KNIGHT \<Rightarrow> get_knight_moves b pc
      | BISHOP \<Rightarrow> get_bishop_moves b pc
      | ROOK \<Rightarrow> get_rook_moves b pc
      | QUEEN \<Rightarrow> get_queen_moves b pc
      | KING \<Rightarrow> get_king_moves b pc)"

fun extend_all :: "ChessBoard \<Rightarrow> ref list \<Rightarrow> error + Move list" where
  "extend_all b [] = Inr []"
| "extend_all b (pc # rest) =
     (case moves_for b pc of
        Inl e \<Rightarrow> Inl e
      | Inr ms \<Rightarrow> (case extend_all b rest of Inl e \<Rightarrow> Inl e | Inr all_moves \<Rightarrow> Inr (ms @ all_moves)))"

definition get_legal_moves :: "ChessBoard \<Rightarrow> Color \<Rightarrow> error + Move list" where
  "get_legal_moves b c = extend_all b (get_pieces_by_color b c)"

section \<open>move\_validator.py: attacks and tactics\<close>

text \<open>
  The scan that \<open>is_attacked\<close> runs over the attacking side and \<open>detect_hanging_pieces\<close>
  over the defenders: generate each piece's moves in list order and stop at the first
  piece that has a move to the square. Pieces after it are not asked for their moves.
\<close>

fun any_move_to :: "ChessBoard \<Rightarrow> string \<Rightarrow> ref list \<Rightarrow> error + bool" where
  "any_move_to b pos [] = Inr False"
| "any_move_to b pos (pc # rest) =
     (case moves_for b pc of
        Inl e \<Rightarrow> Inl e
      | Inr ms \<Rightarrow> if list_ex (\<lambda>m. to_pos m = pos) ms then Inr True else any_move_to b pos rest)"

definition is_attacked :: "ChessBoard \<Rightarrow> string \<Rightarrow> Color \<Rightarrow> error + bool" where
  "is_attacked b pos by_color = any_move_to b pos (get_pieces_by_color b by_color)"

record Fork =
  attacking_piece :: ref
  fork_move :: Move
  targets :: "ref list"
  fork_value :: int

definition forks_of_moves :: "ChessBoard \<Rightarrow> ref list \<Rightarrow> ref \<Rightarrow> Move list \<Rightarrow> Fork list" where
  "forks_of_moves b opponent_pieces pc ms =
     concat (map (\<lambda>m.
        let attacked_pieces = filter (\<lambda>opponent. pos_of b opponent = to_pos m) opponent_pieces;
            attacked_count = int (length attacked_pieces)
        in if attacked_count \<ge> 2
           then [\<lparr>attacking_piece = pc, fork_move = m, targets = attacked_pieces,
                  fork_value = sum_list (map (\<lambda>p. piece_value (heap b p)) attacked_pieces)\<rparr>]
           else []) ms)"

fun forks_loop :: "ChessBoard \<Rightarrow> ref list \<Rightarrow> ref list \<Rightarrow> error + Fork list" where
  "forks_loop b opponent_pieces [] = Inr []"
| "forks_loop b opponent_pieces (pc # rest) =
     (case moves_for b pc of
        Inl e \<Rightarrow> Inl e
      | Inr ms \<Rightarrow>
          (case forks_loop b opponent_pieces rest of
             Inl e \<Rightarrow> Inl e
           | Inr forks \<Rightarrow> Inr (forks_of_moves b opponent_pieces pc ms @ forks)))"

definition detect_forks :: "ChessBoard \<Rightarrow> Color \<Rightarrow> error + Fork list" where
  "detect_forks b c =
     forks_loop b (get_pieces_by_color b (opposite c)) (get_pieces_by_color b c)"

record Hanging =
  hanging_piece :: ref
  hanging_position :: string
  hanging_value :: int

fun hanging_loop :: "ChessBoard \<Rightarrow> Color \<Rightarrow> ref list \<Rightarrow> ref list \<Rightarrow> error + Hanging list" where
  "hanging_loop b opponent_color ps [] = Inr []"
| "hanging_loop b opponent_color ps (pc # rest) =
     (if ptype (heap b pc) = KING \<or> piece_value (heap b pc) = 0
      then hanging_loop b opponent_color ps rest
      else
        (case is_attacked b (pos_of b pc) opponent_color of
           Inl e \<Rightarrow> Inl e
         | Inr attacked \<Rightarrow>
             if attacked then
               (case any_move_to b (pos_of b pc) ps of
                  Inl e \<Rightarrow> Inl e
                | Inr defended \<Rightarrow>
                    (case hanging_loop b opponent_color ps rest of
                       Inl e \<Rightarrow> Inl e
                     | Inr hanging \<Rightarrow>
                         Inr ((if defended then []
                               else [\<lparr>hanging_piece = pc, hanging_position = pos_of b pc,
                                      hanging_value = piece_value (heap b pc)\<rparr>]) @ hanging)))
             else hanging_loop b opponent_color ps rest))"

definition detect_hanging_pieces :: "ChessBoard \<Rightarrow> Color \<Rightarrow> error + Hanging list" where
  "detect_hanging_pieces b c =
     hanging_loop b (opposite c) (get_pieces_by_color b c) (get_pieces_by_color b c)"

section \<open>Python floats\<close>

text \<open>
  \<open>evaluate\<close> mixes integers with the float literals \<open>0.40\<close>, \<open>0.30\<close>, \<open>0.20\<close> and
  \<open>0.10\<close>, none of which is a binary fraction, so its total is the result of IEEE 754
  binary64 arithmetic. A float is modelled by the rational it denotes, or an infinity
  (\<open>True\<close> for the positive one), or NaN; the two zeros are not told apart, which no
  operation used here observes. \<open>to_double\<close> is the rounding every operation ends
  with: to the nearest number with a 53-bit significand, ties to the even significand,
  with the exponent kept at \<open>-1022\<close> in the subnormal range and an overflow to infinity.
\<close>

datatype pyfloat = Finite rat | Infinity bool | NaN

definition round_half_even :: "rat \<Rightarrow> int" where
  "round_half_even x =
     (let f = \<lfloor>x\<rfloor>; d = x - of_int f
      in if d < 1 / 2 then f else if d > 1 / 2 then f + 1 else if even f then f else f + 1)"

text \<open>The exponent \<open>e\<close> with \<open>2 ^ e \<le> |x| < 2 ^ (e + 1)\<close>, for \<open>x \<noteq> 0\<close>.\<close>

definition ilog2 :: "rat \<Rightarrow> int" where
  "ilog2 x =
     (let k = bitlen (fst (quotient_of \<bar>x\<bar>)) - bitlen (snd (quotient_of \<bar>x\<bar>))
      in if 2 powi k \<le> \<bar>x\<bar> then k else k - 1)"

definition to_double :: "rat \<Rightarrow> pyfloat" where
  "to_double x =
     (if x = 0 then Finite 0
      else
        (let e = max (ilog2 x) (- 1022);
             ulp = 2 powi (e - 52);
             y = of_int (round_half_even (x / ulp)) * ulp
         in if \<bar>y\<bar> \<ge> 2 powi 1024 then Infinity (x > 0) else Finite y))"

fun float_add :: "pyfloat \<Rightarrow> pyfloat \<Rightarrow> pyfloat" where
  "float_add (Finite x) (Finite y) = to_double (x + y)"
| "float_add NaN _ = NaN"
| "float_add _ NaN = NaN"
| "float_add (Infinity s) (Infinity t) = (if s = t then Infinity s else NaN)"
| "float_add (Infinity s) (Finite _) = Infinity s"
| "float_add (Finite _) (Infinity t) = Infinity t"

fun float_mul :: "pyfloat \<Rightarrow> pyfloat \<Rightarrow> pyfloat" where
  "float_mul (Finite x) (Finite y) = to_double (x * y)"
| "float_mul NaN _ = NaN"
| "float_mul _ NaN = NaN"
| "float_mul (Infinity s) (Infinity t) = Infinity (s = t)"
| "float_mul (Infinity s) (Finite y) = (if y = 0 then NaN else Infinity (s = (y > 0)))"
| "float_mul (Finite x) (Infinity t) = (if x = 0 then NaN else Infinity ((x > 0) = t))"

text \<open>
  An \<open>int\<close> operand of a float operation is converted first; the conversion rounds
  correctly and raises \<open>OverflowError\<close> when the integer is beyond the floats.
\<close>

definition float_of_int :: "int \<Rightarrow> error + pyfloat" where
  "float_of_int n =
     (case to_double (of_int n) of Finite x \<Rightarrow> Inr (Finite x) | _ \<Rightarrow> Inl OverflowError)"

text \<open>\<open>int_obj * float_literal\<close>, the literal given by the decimal fraction written.\<close>

definition int_times_literal :: "int \<Rightarrow> rat \<Rightarrow> error + pyfloat" where
  "int_times_literal n lit =
     (case float_of_int n of Inl e \<Rightarrow> Inl e | Inr x \<Rightarrow> Inr (float_mul x (to_double lit)))"

text \<open>\<open>round(x)\<close> with one argument: the nearest integer, ties to even; it raises on
  an infinity and on NaN.\<close>

fun py_round :: "pyfloat \<Rightarrow> error + int" where
  "py_round (Finite x) = Inr (round_half_even x)"
| "py_round (Infinity _) = Inl OverflowError"
| "py_round NaN = Inl ValueError"

fun float_abs :: "pyfloat \<Rightarrow> pyfloat" where
  "float_abs (Finite x) = Finite \<bar>x\<bar>"
| "float_abs (Infinity _) = Infinity True"
| "float_abs NaN = NaN"

text \<open>\<open>x < n\<close> and \<open>x > n\<close> for a float and an integer literal; false on NaN.\<close>

fun float_less_int :: "pyfloat \<Rightarrow> int \<Rightarrow> bool" where
  "float_less_int (Finite x) n = (x < of_int n)"
| "float_less_int (Infinity s) n = (\<not> s)"
| "float_less_int NaN n = False"

fun float_greater_int :: "pyfloat \<Rightarrow> int \<Rightarrow> bool" where
  "float_greater_int (Finite x) n = (x > of_int n)"
| "float_greater_int (Infinity s) n = s"
| "float_greater_int NaN n = False"

section \<open>position\_evaluator.py\<close>

record Evaluation =
  material :: int
  activity :: int
  pawn_structure :: int
  king_safety :: int
  total :: int
  assessment :: string
  phase :: string
  white_advantage :: string
  margin :: pyfloat

definition evaluate_material :: "ChessBoard \<Rightarrow> int" where
  "evaluate_material b =
     (let white_material =
            foldl (\<lambda>acc pc. if color (heap b pc) = WHITE
                             then acc + piece_value (heap b pc) * 100 else acc) 0 (pieces b);
          black_material =
            foldl (\<lambda>acc pc. if color (heap b pc) = WHITE
                             then acc else acc + piece_value (heap b pc) * 100) 0 (pieces b)
      in white_material - black_material)"

definition evaluate_activity :: "ChessBoard \<Rightarrow> error + int" where
  "evaluate_activity b =
     (case get_legal_moves b WHITE of
        Inl e \<Rightarrow> Inl e
      | Inr wm \<Rightarrow>
          (case get_legal_moves b BLACK of
             Inl e \<Rightarrow> Inl e
           | Inr bm \<Rightarrow>
               (let white_activity = 0; black_activity = 0;
                    white_moves = int (length wm); black_moves = int (length bm);
                    mobility_bonus = (white_moves - black_moves) * 2
                in Inr (white_activity - black_activity + mobility_bonus))))"

text \<open>
  The dictionaries \<open>white_files\<close> and \<open>black_files\<close> as association lists in insertion
  order. \<open>dict_incr\<close> is \<open>d[k] = d.get(k, 0) + 1\<close>; \<open>pawn.position[0]\<close> raises on an
  empty string.
\<close>

fun dict_incr :: "char \<Rightarrow> (char \<times> int) list \<Rightarrow> (char \<times> int) list" where
  "dict_incr k [] = [(k, 1)]"
| "dict_incr k ((k', v) # rest) =
     (if k = k' then (k', v + 1) # rest else (k', v) # dict_incr k rest)"

fun count_files :: "ChessBoard \<Rightarrow> ref list \<Rightarrow> (char \<times> int) list \<Rightarrow> error + (char \<times> int) list" where
  "count_files b [] d = Inr d"
| "count_files b (pawn # rest) d =
     (case pos_of b pawn of
        [] \<Rightarrow> Inl IndexError
      | file # _ \<Rightarrow> count_files b rest (dict_incr file d))"

definition doubled_score :: "(char \<times> int) list \<Rightarrow> int" where
  "doubled_score items =
     foldl (\<lambda>score (file, count). if count > 1 then score - 20 * (count - 1) else score) 0 items"

definition evaluate_pawns :: "ChessBoard \<Rightarrow> error + int" where
  "evaluate_pawns b =
     (let white_pawns = get_pieces_by_type b PAWN (Some WHITE);
          black_pawns = get_pieces_by_type b PAWN (Some BLACK)
      in case count_files b white_pawns [] of
           Inl e \<Rightarrow> Inl e
         | Inr white_files \<Rightarrow>
             (case count_files b black_pawns [] of
                Inl e \<Rightarrow> Inl e
              | Inr black_files \<Rightarrow> Inr (doubled_score white_files - doubled_score black_files)))"

text \<open>
  The shelter loop of \<open>_assess_king_safety\<close>. A pawn's file and rank are read with the
  same two expressions as in \<open>pos_to_coords\<close>, and raise alike.
\<close>

fun shelter :: "ChessBoard \<Rightarrow> Color \<Rightarrow> int \<Rightarrow> int \<Rightarrow> ref list \<Rightarrow> int \<Rightarrow> error + int" where
  "shelter b c file rank [] shelter_bonus = Inr shelter_bonus"
| "shelter b c file rank (pawn # rest) shelter_bonus =
     (case pos_to_coords (pos_of b pawn) of
        Inl e \<Rightarrow> Inl e
      | Inr (pawn_file, pawn_rank) \<Rightarrow>
          shelter b c file rank rest
            (if \<bar>pawn_file - file\<bar> \<le> 1 then
               (if c = WHITE \<and> pawn_rank \<ge> rank - 1 then shelter_bonus + 10
                else if c = BLACK \<and> pawn_rank \<le> rank + 1 then shelter_bonus + 10
                else shelter_bonus)
             else shelter_bonus))"

text \<open>
  \<open>distance_from_center\<close> is float arithmetic on an integer and \<open>3.5\<close> or \<open>4.5\<close>; the
  operands and results are multiples of one half far below \<open>2 ^ 52\<close>, so every
  operation is exact and the rationals are the floats.
\<close>

definition assess_king_safety :: "ChessBoard \<Rightarrow> ref option \<Rightarrow> Color \<Rightarrow> error + int" where
  "assess_king_safety b king c =
     (case king of
        None \<Rightarrow> Inr (- 200)
      | Some k \<Rightarrow>
          (case pos_to_coords (pos_of b k) of
             Inl e \<Rightarrow> Inl e
           | Inr (file, rank) \<Rightarrow>
               (let distance_from_center =
                      min \<bar>of_int file - (7 / 2 :: rat)\<bar> \<bar>of_int file - 9 / 2\<bar>
                      + min \<bar>of_int rank - 7 / 2\<bar> \<bar>of_int rank - 9 / 2\<bar>;
                    safety = (if distance_from_center < 2 then - 30 else 0)
                in case shelter b c file rank (get_pieces_by_type b PAWN (Some c)) 0 of
                     Inl e \<Rightarrow> Inl e
                   | Inr shelter_bonus \<Rightarrow> Inr (safety + shelter_bonus))))"

definition find_kings :: "ChessBoard \<Rightarrow> ref option \<times> ref option" where
  "find_kings b =
     foldl (\<lambda>(white_king, black_king) pc.
              if ptype (heap b pc) = KING then
                (if color (heap b pc) = WHITE then (Some pc, black_king)
                 else (white_king, Some pc))
              else (white_king, black_king))
       (None, None) (pieces b)"

definition evaluate_king_safety :: "ChessBoard \<Rightarrow> error + int" where
  "evaluate_king_safety b =
     (case assess_king_safety b (fst (find_kings b)) WHITE of
        Inl e \<Rightarrow> Inl e
      | Inr white_safety \<Rightarrow>
          (case assess_king_safety b (snd (find_kings b)) BLACK of
             Inl e \<Rightarrow> Inl e
           | Inr black_safety \<Rightarrow> Inr (white_safety - black_safety)))"

definition determine_phase :: "ChessBoard \<Rightarrow> string" where
  "determine_phase b =
     (let piece_count =
            foldl (\<lambda>acc pc. if ptype (heap b pc) \<noteq> KING \<and> ptype (heap b pc) \<noteq> PAWN
                             then acc + piece_value (heap b pc) else acc) 0 (pieces b)
      in if piece_count > 9 then ''opening''
         else if piece_count > 3 then ''middlegame''
         else ''endgame'')"

definition assess_position :: "pyfloat \<Rightarrow> string" where
  "assess_position score =
     (let abs_score = float_abs score;
          advantage = (if float_greater_int score 0 then ''White'' else ''Black'')
      in if float_less_int abs_score 50 then ''Equal position''
         else if float_less_int abs_score 200 then advantage @ '' has slight advantage''
         else if float_less_int abs_score 500 then advantage @ '' has clear advantage''
         else if float_less_int abs_score 900 then advantage @ '' is much better''
         else advantage @ '' is winning'')"

text \<open>
  \<open>material * 0.40 + activity * 0.30 + pawns * 0.20 + king_safety * 0.10\<close>, evaluated left
  to right: four products of an integer and a literal, added in that order.
\<close>

definition weighted_total :: "int \<Rightarrow> int \<Rightarrow> int \<Rightarrow> int \<Rightarrow> error + pyfloat" where
  "weighted_total m a p k =
     (case int_times_literal m (40 / 100) of
        Inl e \<Rightarrow> Inl e
      | Inr t1 \<Rightarrow>
          (case int_times_literal a (30 / 100) of
             Inl e \<Rightarrow> Inl e
           | Inr t2 \<Rightarrow>
               (case int_times_literal p (20 / 100) of
                  Inl e \<Rightarrow> Inl e
                | Inr t3 \<Rightarrow>
                    (case int_times_literal k (10 / 100) of
                       Inl e \<Rightarrow> Inl e
                     | Inr t4 \<Rightarrow> Inr (float_add (float_add (float_add t1 t2) t3) t4)))))"

definition evaluate :: "ChessBoard \<Rightarrow> error + Evaluation" where
  "evaluate b =
     (let m = evaluate_material b in
      case evaluate_activity b of
        Inl e \<Rightarrow> Inl e
      | Inr a \<Rightarrow>
          (case evaluate_pawns b of
             Inl e \<Rightarrow> Inl e
           | Inr pawns \<Rightarrow>
               (case evaluate_king_safety b of
                  Inl e \<Rightarrow> Inl e
                | Inr ks \<Rightarrow>
                    (case weighted_total m a pawns ks of
                       Inl e \<Rightarrow> Inl e
                     | Inr tot \<Rightarrow>
                         (case py_round tot of
                            Inl e \<Rightarrow> Inl e
                          | Inr rounded \<Rightarrow>
                              Inr \<lparr>material = m, activity = a, pawn_structure = pawns,
                                   king_safety = ks, total = rounded,
                                   assessment = assess_position tot,
                                   phase = determine_phase b,
                                   white_advantage =
                                     (if float_greater_int tot 0 then ''White'' else ''Black''),
                                   margin = float_abs tot\<rparr>)))))"

text \<open>
  \<open>get_move_evaluation\<close> returns its result, or the exception it raised, with the board
  as the call leaves it. \<open>captured\<close> is the key of the \<open>SYMBOLS\<close> table whose glyph
  \<open>get_symbol\<close> returns. \<open>list.remove\<close> of \<open>None\<close> raises \<open>ValueError\<close>, and assigning an
  attribute of \<open>None\<close> raises \<open>AttributeError\<close>.
\<close>

record MoveEvaluation =
  evaluated_move :: string
  evaluation :: Evaluation
  captured :: "(PieceType \<times> Color) option"

definition get_move_evaluation ::
  "ChessBoard \<Rightarrow> string \<Rightarrow> string \<Rightarrow> (error + MoveEvaluation) \<times> ChessBoard" where
  "get_move_evaluation b from_p to_p =
     (let original_piece = get_piece_at b from_p;
          captured_piece = get_piece_at b to_p;
          b1 = snd (move_piece b from_p to_p)
      in case evaluate b1 of
           Inl e \<Rightarrow> (Inl e, b1)
         | Inr ev \<Rightarrow>
             (case get_piece_at b1 to_p of
                None \<Rightarrow> (Inl ValueError, b1)
              | Some found \<Rightarrow>
                  (let b2 = b1\<lparr>pieces := remove1 found (pieces b1)\<rparr> in
                   case original_piece of
                     None \<Rightarrow> (Inl AttributeError, b2)
                   | Some orig \<Rightarrow>
                       (let b3 = b2\<lparr>heap := (heap b2)(orig := (heap b2 orig)\<lparr>position := from_p\<rparr>)\<rparr>;
                            b4 = b3\<lparr>pieces := pieces b3 @ [orig]\<rparr>;
                            b5 = (case captured_piece of
                                    None \<Rightarrow> b4
                                  | Some cp \<Rightarrow> b4\<lparr>pieces := pieces b4 @ [cp]\<rparr>)
                        in (Inr \<lparr>evaluated_move = from_p @ ''-'' @ to_p, evaluation = ev,
                                 captured = map_option (\<lambda>cp. (ptype (heap b5 cp), color (heap b5 cp)))
                                              captured_piece\<rparr>,
                            b5)))))"

text \<open>What \<open>doubled_score\<close> subtracts, as a sum over the dictionary's items.\<close>

definition penalty :: "(char \<times> int) list \<Rightarrow> int" where
  "penalty items = sum_list (map (\<lambda>(f, c). if c > 1 then 20 * (c - 1) else 0) items)"

section \<open>Well-formed boards\<close>

text \<open>
  The spec's data model: a piece stands on one of the 64 squares, and no two entries of
  the board's list share a position. \<open>squares\<close> lists the labels that
  \<open>is_valid_position\<close> accepts.
\<close>

definition squares :: "string list" where
  "squares = concat (map (\<lambda>c0. map (\<lambda>c1. [c0, c1]) RANKS) FILES)"

definition valid_board :: "ChessBoard \<Rightarrow> bool" where
  "valid_board b = list_all (\<lambda>r. is_valid_position (pos_of b r)) (pieces b)"

definition one_piece_per_square :: "ChessBoard \<Rightarrow> bool" where
  "one_piece_per_square b = distinct (map (pos_of b) (pieces b))"

text \<open>The position after \<open>e2-e4\<close> and \<open>d7-d5\<close>, where each of the two pawns attacks the other.\<close>

definition e4_d5 :: ChessBoard where
  "e4_d5 = snd (move_piece (snd (move_piece new_ChessBoard ''e2'' ''e4'')) ''d7'' ''d5'')"

section \<open>Properties: the board\<close>

lemma get_piece_at_None:
  "get_piece_at b f = None \<longleftrightarrow> (\<forall>r \<in> set (pieces b). pos_of b r \<noteq> f)"
  by (auto simp: get_piece_at_def find_None_iff)

lemma get_piece_at_SomeD:
  "get_piece_at b f = Some r \<Longrightarrow> r \<in> set (pieces b) \<and> pos_of b r = f"
  by (auto simp: get_piece_at_def find_Some_iff)

text \<open>
  C7. \<open>move_piece\<close> returns false exactly when \<open>get_piece_at\<close> finds nothing on the
  source square, that is when no piece of the list has that position, and then the
  board it leaves is the board it was given: pieces, heap, history and flags.
\<close>

theorem move_piece_fails_iff_empty:
  "(fst (move_piece b f t) = False \<longleftrightarrow> get_piece_at b f = None) \<and>
   (get_piece_at b f = None \<longleftrightarrow> (\<forall>r \<in> set (pieces b). position (heap b r) \<noteq> f)) \<and>
   (fst (move_piece b f t) = False \<longrightarrow> snd (move_piece b f t) = b)"
proof -
  have a: "get_piece_at b f = None \<longleftrightarrow> (\<forall>r \<in> set (pieces b). position (heap b r) \<noteq> f)"
    using get_piece_at_None [of b f] by (simp add: pos_of_def)
  have b: "fst (move_piece b f t) = False \<longleftrightarrow> get_piece_at b f = None"
    by (cases "get_piece_at b f") (simp_all add: move_piece_def Let_def)
  have c: "get_piece_at b f = None \<Longrightarrow> snd (move_piece b f t) = b"
    by (simp add: move_piece_def)
  from a b c show ?thesis by blast
qed

theorem move_piece_fails_iff_empty_witness:
  "fst (move_piece new_ChessBoard ''e3'' ''e4'') = False \<and>
   snd (move_piece new_ChessBoard ''e3'' ''e4'') = new_ChessBoard"
proof -
  have "get_piece_at new_ChessBoard ''e3'' = None" by code_simp
  with move_piece_fails_iff_empty [of new_ChessBoard "''e3''" "''e4''"] show ?thesis by simp
qed

lemma square_empty_after_self_move:
  assumes inv: "one_piece_per_square b" and h: "get_piece_at b p = Some r"
  shows "get_piece_at (snd (move_piece b p p)) p = None"
proof -
  from h have rin: "r \<in> set (pieces b)" and rp: "pos_of b r = p"
    by (simp_all add: get_piece_at_SomeD)
  from inv have dpos: "distinct (map (pos_of b) (pieces b))"
    by (simp add: one_piece_per_square_def)
  then have d: "distinct (pieces b)" and inj: "inj_on (pos_of b) (set (pieces b))"
    by (simp_all add: distinct_map)
  have ps: "pieces (snd (move_piece b p p)) = remove1 r (pieces b)"
    using h by (simp add: move_piece_def Let_def)
  have hp: "\<And>x. x \<noteq> r \<Longrightarrow> pos_of (snd (move_piece b p p)) x = pos_of b x"
    using h by (simp add: move_piece_def Let_def pos_of_def)
  have "pos_of (snd (move_piece b p p)) x \<noteq> p" if "x \<in> set (remove1 r (pieces b))" for x
  proof -
    from that d have xr: "x \<noteq> r" and xin: "x \<in> set (pieces b)" by auto
    with inj rin have "pos_of b x \<noteq> pos_of b r" by (auto dest: inj_onD)
    with xr rp show ?thesis by (simp add: hp)
  qed
  then show ?thesis by (simp add: get_piece_at_None ps)
qed

text \<open>
  C10. When a piece \<open>r\<close> is found on \<open>p\<close>, \<open>move_piece\<close> from \<open>p\<close> to \<open>p\<close> succeeds
  and the list it leaves is the old one with the first occurrence of \<open>r\<close> removed: one
  entry shorter, without \<open>r\<close> altogether when the list held it once, and with nothing
  left on \<open>p\<close> when no two pieces shared a square.
\<close>

theorem move_piece_onto_itself:
  "get_piece_at b p = Some r \<Longrightarrow>
     fst (move_piece b p p) = True \<and>
     pieces (snd (move_piece b p p)) = remove1 r (pieces b) \<and>
     length (pieces (snd (move_piece b p p))) + 1 = length (pieces b) \<and>
     (distinct (pieces b) \<longrightarrow> r \<notin> set (pieces (snd (move_piece b p p)))) \<and>
     (one_piece_per_square b \<longrightarrow> get_piece_at (snd (move_piece b p p)) p = None)"
proof -
  assume h: "get_piece_at b p = Some r"
  then have m: "r \<in> set (pieces b)" by (simp add: get_piece_at_SomeD)
  then have pos: "0 < length (pieces b)" by (rule length_pos_if_in_set)
  have ps: "pieces (snd (move_piece b p p)) = remove1 r (pieces b)"
    using h by (simp add: move_piece_def Let_def)
  have ok: "fst (move_piece b p p) = True"
    using h by (simp add: move_piece_def Let_def)
  have len: "length (pieces (snd (move_piece b p p))) + 1 = length (pieces b)"
    using m pos by (simp add: ps length_remove1)
  have gone: "distinct (pieces b) \<longrightarrow> r \<notin> set (pieces (snd (move_piece b p p)))"
    by (simp add: ps)
  have empty: "one_piece_per_square b \<longrightarrow> get_piece_at (snd (move_piece b p p)) p = None"
    using h by (simp add: square_empty_after_self_move)
  from ok ps len gone empty show ?thesis by blast
qed

theorem move_piece_onto_itself_witness:
  "get_piece_at new_ChessBoard ''e2'' = Some 4 \<and>
   fst (move_piece new_ChessBoard ''e2'' ''e2'') = True \<and>
   length (pieces (snd (move_piece new_ChessBoard ''e2'' ''e2''))) + 1
     = length (pieces new_ChessBoard) \<and>
   4 \<notin> set (pieces (snd (move_piece new_ChessBoard ''e2'' ''e2''))) \<and>
   get_piece_at (snd (move_piece new_ChessBoard ''e2'' ''e2'')) ''e2'' = None"
proof -
  have h: "get_piece_at new_ChessBoard ''e2'' = Some 4" by code_simp
  have d: "distinct (pieces new_ChessBoard)" by code_simp
  have i: "one_piece_per_square new_ChessBoard" by code_simp
  from move_piece_onto_itself [OF h] d h i show ?thesis by blast
qed

section \<open>Properties: coordinates\<close>

lemma coords_to_pos_None:
  "coords_to_pos f r = None \<longleftrightarrow> \<not> (0 \<le> f \<and> f \<le> 7 \<and> 0 \<le> r \<and> r \<le> 7)"
  by (simp add: coords_to_pos_def)

lemma is_valid_position_iff:
  "is_valid_position p \<longleftrightarrow> (\<exists>c0 c1. p = [c0, c1] \<and> c0 \<in> set FILES \<and> c1 \<in> set RANKS)"
proof
  assume "is_valid_position p"
  then have l: "length p = 2" and m: "p ! 0 \<in> set FILES" "p ! 1 \<in> set RANKS"
    by (auto simp: is_valid_position_def split: if_splits)
  from l obtain c0 c1 where "p = [c0, c1]"
    by (cases p; simp) (metis length_0_conv length_Suc_conv)
  with m show "\<exists>c0 c1. p = [c0, c1] \<and> c0 \<in> set FILES \<and> c1 \<in> set RANKS" by auto
next
  assume "\<exists>c0 c1. p = [c0, c1] \<and> c0 \<in> set FILES \<and> c1 \<in> set RANKS"
  then show "is_valid_position p" by (auto simp: is_valid_position_def)
qed

lemma valid_in_squares: "is_valid_position p \<longleftrightarrow> p \<in> set squares"
  by (auto simp: is_valid_position_iff squares_def)

text \<open>Each of the 64 labels converts to coordinates in range that convert back to it.\<close>

lemma squares_roundtrip:
  "list_all (\<lambda>p. case pos_to_coords p of
                    Inr (f, r) \<Rightarrow> 0 \<le> f \<and> f \<le> 7 \<and> 0 \<le> r \<and> r \<le> 7 \<and> coords_to_pos f r = Some p
                  | Inl e \<Rightarrow> False) squares"
  by code_simp

lemma valid_pos_to_coords:
  assumes "is_valid_position p"
  shows "\<exists>f r. pos_to_coords p = Inr (f, r) \<and> 0 \<le> f \<and> f \<le> 7 \<and> 0 \<le> r \<and> r \<le> 7 \<and>
           coords_to_pos f r = Some p"
proof -
  from assms have "p \<in> set squares" by (simp add: valid_in_squares)
  with squares_roundtrip have
    "case pos_to_coords p of
       Inr (f, r) \<Rightarrow> 0 \<le> f \<and> f \<le> 7 \<and> 0 \<le> r \<and> r \<le> 7 \<and> coords_to_pos f r = Some p
     | Inl e \<Rightarrow> False"
    by (simp add: list_all_iff)
  then show ?thesis by (auto split: sum.splits)
qed

lemma int_range8: "0 \<le> (n::int) \<Longrightarrow> n \<le> 7 \<Longrightarrow> n \<in> {0, 1, 2, 3, 4, 5, 6, 7}"
  by auto

lemma chr_files:
  "chr (ord CHR ''a'' + 0) = CHR ''a''" "chr (ord CHR ''a'' + 1) = CHR ''b''"
  "chr (ord CHR ''a'' + 2) = CHR ''c''" "chr (ord CHR ''a'' + 3) = CHR ''d''"
  "chr (ord CHR ''a'' + 4) = CHR ''e''" "chr (ord CHR ''a'' + 5) = CHR ''f''"
  "chr (ord CHR ''a'' + 6) = CHR ''g''" "chr (ord CHR ''a'' + 7) = CHR ''h''"
  by code_simp+

lemma chr_ranks:
  "chr (ord CHR ''0'' + (0 + 1)) = CHR ''1''" "chr (ord CHR ''0'' + (1 + 1)) = CHR ''2''"
  "chr (ord CHR ''0'' + (2 + 1)) = CHR ''3''" "chr (ord CHR ''0'' + (3 + 1)) = CHR ''4''"
  "chr (ord CHR ''0'' + (4 + 1)) = CHR ''5''" "chr (ord CHR ''0'' + (5 + 1)) = CHR ''6''"
  "chr (ord CHR ''0'' + (6 + 1)) = CHR ''7''" "chr (ord CHR ''0'' + (7 + 1)) = CHR ''8''"
  by code_simp+

lemma coords_to_pos_Some:
  assumes "coords_to_pos f r = Some pos"
  shows "is_valid_position pos \<and> pos_to_coords pos = Inr (f, r)"
proof -
  from assms have r: "0 \<le> f" "f \<le> 7" "0 \<le> r" "r \<le> 7"
    by (auto simp: coords_to_pos_def split: if_splits)
  from assms r have p: "pos = [chr (ord CHR ''a'' + f), chr (ord CHR ''0'' + (r + 1))]"
    by (simp add: coords_to_pos_def)
  from r have "f \<in> {0, 1, 2, 3, 4, 5, 6, 7}" "r \<in> {0, 1, 2, 3, 4, 5, 6, 7}"
    by (auto intro: int_range8)
  then show ?thesis unfolding p
    by (elim insertE emptyE; simp only: chr_files chr_ranks;
        simp add: is_valid_position_def FILES_def RANKS_def pos_to_coords_def
          int_of_char_def ord_def)
qed

lemma pos_to_coords_unchecked:
  "int_of_char c1 = Inr d \<Longrightarrow>
     pos_to_coords (c0 # c1 # rest) = Inr (ord c0 - ord CHR ''a'', d - 1)"
  by (simp add: pos_to_coords_def)

text \<open>
  C8, as the code has it. \<open>coords_to_pos\<close> gives no value exactly for the pairs
  outside \<open>0..7 \<times> 0..7\<close>, and a valid label that \<open>pos_to_coords\<close> maps back otherwise;
  on valid labels the two conversions are inverse. \<open>pos_to_coords\<close> checks no range:
  whenever the second character is a decimal digit it returns the pair computed from
  the first two characters, whatever it is.
\<close>

theorem coords_conversion_checked_one_way:
  "(coords_to_pos f r = None \<longleftrightarrow> \<not> (0 \<le> f \<and> f \<le> 7 \<and> 0 \<le> r \<and> r \<le> 7)) \<and>
   (\<forall>pos. coords_to_pos f r = Some pos \<longrightarrow>
          is_valid_position pos \<and> pos_to_coords pos = Inr (f, r)) \<and>
   (is_valid_position p \<longrightarrow>
      (\<exists>f r. pos_to_coords p = Inr (f, r) \<and> 0 \<le> f \<and> f \<le> 7 \<and> 0 \<le> r \<and> r \<le> 7 \<and>
             coords_to_pos f r = Some p)) \<and>
   (\<forall>d. int_of_char c1 = Inr d \<longrightarrow>
        pos_to_coords (c0 # c1 # rest) = Inr (ord c0 - ord CHR ''a'', d - 1))"
  using coords_to_pos_None coords_to_pos_Some valid_pos_to_coords pos_to_coords_unchecked
  by blast

theorem coords_conversion_checked_one_way_witness:
  "coords_to_pos 4 3 = Some ''e4'' \<and> is_valid_position ''e4'' \<and>
   pos_to_coords ''e4'' = Inr (4, 3) \<and> coords_to_pos 8 0 = None \<and>
   pos_to_coords (CHR ''i'' # CHR ''1'' # []) = Inr (8, 0)"
proof -
  have a: "coords_to_pos 4 3 = Some ''e4''" by code_simp
  have b: "coords_to_pos 8 0 = None" by (simp add: coords_to_pos_def)
  have c: "int_of_char CHR ''1'' = Inr 1" by (simp add: int_of_char_def ord_def)
  have d: "ord CHR ''i'' - ord CHR ''a'' = 8" by (simp add: ord_def)
  from coords_conversion_checked_one_way [of 4 3 "''e4''" "CHR ''1''" "CHR ''i''" "[]"] a b c d
  show ?thesis by simp
qed

text \<open>
  C8 as stated fails: the label \<open>z9\<close> is not a square of the board, and
  \<open>pos_to_coords\<close> returns the pair \<open>(25, 8)\<close> for it.
\<close>

theorem pos_to_coords_accepts_off_board:
  "\<not> is_valid_position ''z9'' \<and> pos_to_coords ''z9'' = Inr (25, 8)"
  by (simp add: is_valid_position_def FILES_def RANKS_def pos_to_coords_def
      int_of_char_def ord_def)

section \<open>Properties: float arithmetic\<close>

text \<open>
  The error of one rounding, and from it the distance between the float total of
  \<open>evaluate\<close> and the exact weighted sum, for sub-scores below \<open>2 ^ 30\<close> in
  magnitude.
\<close>

lemma round_half_even_close: "\<bar>of_int (round_half_even x) - x\<bar> \<le> 1 / 2"
proof -
  have "of_int \<lfloor>x\<rfloor> \<le> x" and "x < of_int \<lfloor>x\<rfloor> + 1" by linarith+
  then show ?thesis unfolding round_half_even_def Let_def
    by (auto simp: abs_le_iff)
qed

lemma round_half_even_nearest:
  assumes "\<bar>x - of_int j\<bar> < 1 / 2"
  shows "round_half_even x = j"
proof -
  from assms have lo: "of_int j - 1 / 2 < x" and hi: "x < of_int j + 1 / 2" by linarith+
  show ?thesis
  proof (cases "of_int j \<le> x")
    case True
    with hi have "\<lfloor>x\<rfloor> = j" by (intro floor_unique) linarith+
    with hi show ?thesis by (simp add: round_half_even_def Let_def)
  next
    case False
    with lo have f: "\<lfloor>x\<rfloor> = j - 1" by (intro floor_unique) (simp, linarith)+
    with lo False show ?thesis by (simp add: round_half_even_def Let_def)
  qed
qed

lemma quotient_of_pos:
  assumes "0 < (x::rat)"
  shows "0 < fst (quotient_of x) \<and> 0 < snd (quotient_of x) \<and>
         x = of_int (fst (quotient_of x)) / of_int (snd (quotient_of x))"
proof -
  obtain p q where pq: "quotient_of x = (p, q)" by (cases "quotient_of x")
  then have q: "0 < q" by (rule quotient_of_denom_pos)
  from quotient_of_div [OF pq] have x: "x = of_int p / of_int q" .
  with assms q have "0 < p" by (simp add: zero_less_divide_iff)
  with pq q x show ?thesis by simp
qed

lemma ilog2_le:
  assumes "x \<noteq> 0"
  shows "2 powi (ilog2 x) \<le> \<bar>x\<bar>"
proof -
  define p where "p = fst (quotient_of \<bar>x\<bar>)"
  define q where "q = snd (quotient_of \<bar>x\<bar>)"
  define k where "k = bitlen p - bitlen q"
  from assms have "0 < \<bar>x\<bar>" by simp
  from quotient_of_pos [OF this] have p: "0 < p" and q: "0 < q"
    and x: "\<bar>x\<bar> = of_int p / of_int q" by (simp_all add: p_def q_def)
  show ?thesis
  proof (cases "2 powi k \<le> \<bar>x\<bar>")
    case True
    then show ?thesis by (simp add: ilog2_def Let_def k_def p_def q_def)
  next
    case False
    then have i: "ilog2 x = k - 1" by (simp add: ilog2_def Let_def k_def p_def q_def)
    from bitlen_bounds [OF p] have lo: "2 ^ nat (bitlen p - 1) \<le> p" by simp
    from bitlen_bounds [OF q] have hi: "q < 2 ^ nat (bitlen q)" by simp
    from p have bp: "1 \<le> bitlen p" by (simp add: bitlen_alt_def)
    have "(2::rat) powi (k - 1) = 2 powi (bitlen p - 1) / 2 powi (bitlen q)"
      by (simp add: k_def power_int_diff)
    also have "\<dots> = 2 ^ nat (bitlen p - 1) / 2 ^ nat (bitlen q)"
      using bp bitlen_nonneg [of q] by (simp add: power_int_def)
    also have "\<dots> \<le> of_int p / of_int q"
    proof (rule frac_le)
      from p show "(0::rat) \<le> of_int p" by simp
      from lo have "(of_int (2 ^ nat (bitlen p - 1)) :: rat) \<le> of_int p" by (simp only: of_int_le_iff)
      then show "(2::rat) ^ nat (bitlen p - 1) \<le> of_int p" by simp
      from q show "(0::rat) < of_int q" by simp
      from hi have "(of_int q :: rat) \<le> of_int (2 ^ nat (bitlen q))" by (simp only: of_int_le_iff less_imp_le)
      then show "(of_int q :: rat) \<le> 2 ^ nat (bitlen q)" by simp
    qed
    finally show ?thesis by (simp add: i x)
  qed
qed


lemma to_double_close:
  assumes "\<bar>x\<bar> \<le> 2 ^ 100"
  shows "\<exists>y. to_double x = Finite y \<and> \<bar>y - x\<bar> \<le> \<bar>x\<bar> / 2 ^ 53 + 1 / 2 ^ 1075"
proof (cases "x = 0")
  case True
  then show ?thesis by (simp add: to_double_def)
next
  case False
  define e where "e = max (ilog2 x) (- 1022)"
  define ulp :: rat where "ulp = 2 powi (e - 52)"
  define y where "y = of_int (round_half_even (x / ulp)) * ulp"
  have ulp_pos: "0 < ulp" by (simp add: ulp_def)
  have "y - x = (of_int (round_half_even (x / ulp)) - x / ulp) * ulp"
    using ulp_pos by (simp add: y_def left_diff_distrib)
  then have "\<bar>y - x\<bar> = \<bar>of_int (round_half_even (x / ulp)) - x / ulp\<bar> * ulp"
    using ulp_pos by (simp add: abs_mult)
  also have "\<dots> \<le> (1 / 2) * ulp"
    using round_half_even_close [of "x / ulp"] ulp_pos by (intro mult_right_mono) simp_all
  finally have err: "\<bar>y - x\<bar> \<le> ulp / 2" by simp
  have ulp_le: "ulp \<le> \<bar>x\<bar> / 2 ^ 52 + 1 / 2 ^ 1074"
  proof (cases "ilog2 x \<ge> - 1022")
    case True
    then have "ulp = 2 powi (ilog2 x) / 2 ^ 52"
      by (simp add: ulp_def e_def power_int_diff)
    also have "\<dots> \<le> \<bar>x\<bar> / 2 ^ 52"
      using ilog2_le [OF False] by (intro divide_right_mono) simp_all
    finally show ?thesis by simp
  next
    case no: False
    then have "e = - 1022" by (simp add: e_def)
    then have "ulp = 1 / 2 ^ 1074" by (simp add: ulp_def power_int_minus_divide)
    then show ?thesis by simp
  qed
  have half: "\<bar>y - x\<bar> \<le> \<bar>x\<bar> / 2 ^ 53 + 1 / 2 ^ 1075"
    using err ulp_le by simp
  have "\<bar>x\<bar> / 2 ^ 53 \<le> \<bar>x\<bar>" by (simp add: divide_le_eq)
  moreover have "(1::rat) / 2 ^ 1075 \<le> 1" by simp
  ultimately have "\<bar>y\<bar> \<le> 2 * \<bar>x\<bar> + 1" using half by linarith
  also have "\<dots> \<le> 2 * 2 ^ 100 + 1" using assms by simp
  also have "\<dots> < (2::rat) ^ 102" by simp
  also have "\<dots> \<le> (2::rat) ^ 1024" by (rule power_increasing) simp_all
  finally have "\<not> \<bar>y\<bar> \<ge> 2 powi 1024" by simp
  then have "to_double x = Finite y"
    using False by (simp add: to_double_def Let_def y_def ulp_def e_def)
  with half show ?thesis by blast
qed


lemma to_double_literal:
  assumes "0 \<le> lit" "lit \<le> 1"
  shows "\<exists>c. to_double lit = Finite c \<and> \<bar>c - lit\<bar> \<le> 1 / 2 ^ 52"
proof -
  have "\<bar>lit\<bar> \<le> 2 ^ 100" using assms by simp
  from to_double_close [OF this] obtain c where c: "to_double lit = Finite c"
    and e: "\<bar>c - lit\<bar> \<le> \<bar>lit\<bar> / 2 ^ 53 + 1 / 2 ^ 1075" by blast
  have "\<bar>lit\<bar> / 2 ^ 53 \<le> 1 / 2 ^ 53" using assms by (simp add: divide_right_mono)
  moreover have "(1::rat) / 2 ^ 1075 \<le> 1 / 2 ^ 53"
    by (intro divide_left_mono power_increasing) simp_all
  ultimately have "\<bar>c - lit\<bar> \<le> 1 / 2 ^ 52" using e by simp
  with c show ?thesis by blast
qed

lemma to_double_medium:
  assumes "\<bar>x\<bar> \<le> 2 ^ 40"
  shows "\<exists>y. to_double x = Finite y \<and> \<bar>y - x\<bar> \<le> 1 / 2 ^ 12"
proof -
  have "(2::rat) ^ 40 \<le> 2 ^ 100" by (rule power_increasing) simp_all
  with assms have "\<bar>x\<bar> \<le> 2 ^ 100" by linarith
  from to_double_close [OF this] obtain y where y: "to_double x = Finite y"
    and e: "\<bar>y - x\<bar> \<le> \<bar>x\<bar> / 2 ^ 53 + 1 / 2 ^ 1075" by blast
  have "\<bar>x\<bar> / 2 ^ 53 \<le> 2 ^ 40 / 2 ^ 53" using assms by (simp add: divide_right_mono)
  then have "\<bar>x\<bar> / 2 ^ 53 \<le> 1 / 2 ^ 13" by simp
  moreover have "(1::rat) / 2 ^ 1075 \<le> 1 / 2 ^ 13"
    by (intro divide_left_mono power_increasing) simp_all
  ultimately have "\<bar>y - x\<bar> \<le> 1 / 2 ^ 12" using e by simp
  with y show ?thesis by blast
qed

lemma int_times_literal_close:
  assumes m: "\<bar>m\<bar> \<le> 2 ^ 30" and lit: "0 \<le> lit" "lit \<le> 1"
  shows "\<exists>t. int_times_literal m lit = Inr (Finite t) \<and>
           \<bar>t - of_int m * lit\<bar> \<le> 1 / 2 ^ 10 \<and> \<bar>t\<bar> \<le> 2 ^ 31"
proof -
  from m have mr: "\<bar>of_int m :: rat\<bar> \<le> 2 ^ 30"
    by (metis of_int_abs of_int_le_iff of_int_numeral of_int_power)
  then have "\<bar>of_int m :: rat\<bar> \<le> 2 ^ 40" by simp
  from to_double_medium [OF this] obtain M where M: "to_double (of_int m) = Finite M"
    and Me: "\<bar>M - of_int m\<bar> \<le> 1 / 2 ^ 12" by blast
  from to_double_literal [OF lit] obtain c where c: "to_double lit = Finite c"
    and ce: "\<bar>c - lit\<bar> \<le> 1 / 2 ^ 52" by blast
  have Mb: "\<bar>M\<bar> \<le> 2 ^ 30 + 1" using Me mr by (simp del: divide_le_eq_numeral1 le_divide_eq_numeral1; linarith)
  have cb: "\<bar>c\<bar> \<le> 2" using ce lit by (simp del: divide_le_eq_numeral1 le_divide_eq_numeral1; linarith)
  have "\<bar>M * c\<bar> \<le> (2 ^ 30 + 1) * 2"
    unfolding abs_mult using Mb cb by (intro mult_mono) simp_all
  then have "\<bar>M * c\<bar> \<le> 2 ^ 40" by simp
  from to_double_medium [OF this] obtain t where t: "to_double (M * c) = Finite t"
    and te: "\<bar>t - M * c\<bar> \<le> 1 / 2 ^ 12" by blast
  have "\<bar>M * (c - lit)\<bar> \<le> (2 ^ 30 + 1) * (1 / 2 ^ 52)"
    unfolding abs_mult using Mb ce by (intro mult_mono) simp_all
  then have e1: "\<bar>M * (c - lit)\<bar> \<le> 1 / 2 ^ 12" by simp
  have "\<bar>(M - of_int m) * lit\<bar> \<le> (1 / 2 ^ 12) * 1"
    unfolding abs_mult using Me lit by (intro mult_mono) simp_all
  then have e2: "\<bar>(M - of_int m) * lit\<bar> \<le> 1 / 2 ^ 12" by simp
  have "M * c - of_int m * lit = M * (c - lit) + (M - of_int m) * lit"
    by (simp add: algebra_simps)
  with e1 e2 have e3: "\<bar>M * c - of_int m * lit\<bar> \<le> 2 / 2 ^ 12" by (simp del: divide_le_eq_numeral1 le_divide_eq_numeral1; linarith)
  with te have close: "\<bar>t - of_int m * lit\<bar> \<le> 1 / 2 ^ 10" by (simp del: divide_le_eq_numeral1 le_divide_eq_numeral1; linarith)
  have "\<bar>of_int m * lit\<bar> \<le> 2 ^ 30 * 1"
    unfolding abs_mult using mr lit by (intro mult_mono) simp_all
  with close have tb: "\<bar>t\<bar> \<le> 2 ^ 31" by (simp del: divide_le_eq_numeral1 le_divide_eq_numeral1; linarith)
  have "int_times_literal m lit = Inr (Finite t)"
    by (simp add: int_times_literal_def float_of_int_def M c t)
  with close tb show ?thesis by blast
qed

lemma float_add_close:
  assumes "\<bar>x\<bar> \<le> 2 ^ 38" "\<bar>y\<bar> \<le> 2 ^ 38"
  shows "\<exists>z. float_add (Finite x) (Finite y) = Finite z \<and> \<bar>z - (x + y)\<bar> \<le> 1 / 2 ^ 12"
proof -
  from assms have "\<bar>x + y\<bar> \<le> 2 ^ 40" by (simp del: divide_le_eq_numeral1 le_divide_eq_numeral1; linarith)
  from to_double_medium [OF this] show ?thesis by simp
qed

lemma weighted_total_close:
  assumes "\<bar>m\<bar> \<le> 2 ^ 30" "\<bar>a\<bar> \<le> 2 ^ 30" "\<bar>p\<bar> \<le> 2 ^ 30" "\<bar>k\<bar> \<le> 2 ^ 30"
  shows "\<exists>T. weighted_total m a p k = Inr (Finite T) \<and>
           \<bar>T - (2 / 5 * of_int m + 3 / 10 * of_int a + 1 / 5 * of_int p + 1 / 10 * of_int k)\<bar>
             \<le> 1 / 100"
proof -
  from int_times_literal_close [OF assms(1), of "40 / 100"] obtain t1 where
    t1: "int_times_literal m (40 / 100) = Inr (Finite t1)"
    and e1: "\<bar>t1 - of_int m * (40 / 100)\<bar> \<le> 1 / 2 ^ 10" and b1: "\<bar>t1\<bar> \<le> 2 ^ 31" by auto
  from int_times_literal_close [OF assms(2), of "30 / 100"] obtain t2 where
    t2: "int_times_literal a (30 / 100) = Inr (Finite t2)"
    and e2: "\<bar>t2 - of_int a * (30 / 100)\<bar> \<le> 1 / 2 ^ 10" and b2: "\<bar>t2\<bar> \<le> 2 ^ 31" by auto
  from int_times_literal_close [OF assms(3), of "20 / 100"] obtain t3 where
    t3: "int_times_literal p (20 / 100) = Inr (Finite t3)"
    and e3: "\<bar>t3 - of_int p * (20 / 100)\<bar> \<le> 1 / 2 ^ 10" and b3: "\<bar>t3\<bar> \<le> 2 ^ 31" by auto
  from int_times_literal_close [OF assms(4), of "10 / 100"] obtain t4 where
    t4: "int_times_literal k (10 / 100) = Inr (Finite t4)"
    and e4: "\<bar>t4 - of_int k * (10 / 100)\<bar> \<le> 1 / 2 ^ 10" and b4: "\<bar>t4\<bar> \<le> 2 ^ 31" by auto
  from b1 b2 have "\<bar>t1\<bar> \<le> 2 ^ 38" "\<bar>t2\<bar> \<le> 2 ^ 38" by (simp del: divide_le_eq_numeral1 le_divide_eq_numeral1; linarith)+
  from float_add_close [OF this] obtain s1 where
    s1: "float_add (Finite t1) (Finite t2) = Finite s1"
    and f1: "\<bar>s1 - (t1 + t2)\<bar> \<le> 1 / 2 ^ 12" by blast
  from f1 b1 b2 b3 have "\<bar>s1\<bar> \<le> 2 ^ 38" "\<bar>t3\<bar> \<le> 2 ^ 38" by (simp del: divide_le_eq_numeral1 le_divide_eq_numeral1; linarith)+
  from float_add_close [OF this] obtain s2 where
    s2: "float_add (Finite s1) (Finite t3) = Finite s2"
    and f2: "\<bar>s2 - (s1 + t3)\<bar> \<le> 1 / 2 ^ 12" by blast
  from f1 f2 b1 b2 b3 b4 have "\<bar>s2\<bar> \<le> 2 ^ 38" "\<bar>t4\<bar> \<le> 2 ^ 38" by (simp del: divide_le_eq_numeral1 le_divide_eq_numeral1; linarith)+
  from float_add_close [OF this] obtain s3 where
    s3: "float_add (Finite s2) (Finite t4) = Finite s3"
    and f3: "\<bar>s3 - (s2 + t4)\<bar> \<le> 1 / 2 ^ 12" by blast
  have w: "weighted_total m a p k = Inr (Finite s3)"
    by (simp only: weighted_total_def t1 t2 t3 t4 s1 s2 s3 sum.case)
  from e1 e2 e3 e4 f1 f2 f3 have
    "\<bar>s3 - (2 / 5 * of_int m + 3 / 10 * of_int a + 1 / 5 * of_int p + 1 / 10 * of_int k)\<bar>
       \<le> 1 / 100"
    by (simp del: divide_le_eq_numeral1 le_divide_eq_numeral1; linarith)
  with w show ?thesis by blast
qed


lemma fifths_round:
  fixes S :: rat
  assumes "5 * S = of_int n"
  shows "\<bar>S - of_int (round S)\<bar> \<le> 2 / 5"
proof -
  define z where "z = n - 5 * round S"
  define d where "d = \<bar>S - of_int (round S)\<bar>"
  have h: "d \<le> 1 / 2"
    unfolding d_def using of_int_round_abs_le [of S] by (simp only: abs_minus_commute)
  have "of_int z = 5 * (S - of_int (round S))"
    using assms by (simp add: z_def)
  then have "\<bar>of_int z :: rat\<bar> = \<bar>5 * (S - of_int (round S))\<bar>"
    by (simp only:)
  then have eq: "\<bar>of_int z :: rat\<bar> = 5 * d"
    by (simp only: abs_mult d_def)
  have "(of_int \<bar>z\<bar> :: rat) = 5 * d" using eq by simp
  with h have "(of_int \<bar>z\<bar> :: rat) < of_int 3" by simp
  then have "\<bar>z\<bar> < 3" by (simp only: of_int_less_iff)
  then have "\<bar>z\<bar> \<le> 2" by simp
  then have "(of_int \<bar>z\<bar> :: rat) \<le> of_int 2" by (simp only: of_int_le_iff)
  with \<open>(of_int \<bar>z\<bar> :: rat) = 5 * d\<close> have "5 * d \<le> 2" by simp
  then show ?thesis unfolding d_def by simp
qed

lemma weighted_total_rounds:
  assumes b: "\<bar>m\<bar> \<le> 2 ^ 30" "\<bar>a\<bar> \<le> 2 ^ 30" "\<bar>p\<bar> \<le> 2 ^ 30" "\<bar>k\<bar> \<le> 2 ^ 30"
    and ev: "even a" "even k"
  shows "\<exists>T. weighted_total m a p k = Inr (Finite T) \<and>
           py_round (Finite T) =
             Inr (round (2 / 5 * of_int m + 3 / 10 * of_int a + 1 / 5 * of_int p
                         + 1 / 10 * of_int k :: rat))"
proof -
  define S :: rat where
    "S = 2 / 5 * of_int m + 3 / 10 * of_int a + 1 / 5 * of_int p + 1 / 10 * of_int k"
  from weighted_total_close [OF b] obtain T where
    T: "weighted_total m a p k = Inr (Finite T)" and c: "\<bar>T - S\<bar> \<le> 1 / 100"
    unfolding S_def by blast
  from ev(1) obtain a' where a': "a = 2 * a'" by (rule evenE)
  from ev(2) obtain k' where k': "k = 2 * k'" by (rule evenE)
  have "5 * S = of_int (2 * m + 3 * a' + p + k')"
    by (simp add: S_def a' k')
  from fifths_round [OF this] have "\<bar>S - of_int (round S)\<bar> \<le> 2 / 5" .
  with c have "\<bar>T - of_int (round S)\<bar> < 1 / 2" by linarith
  then have "round_half_even T = round S" by (rule round_half_even_nearest)
  with T show ?thesis by (simp add: S_def)
qed

section \<open>Properties: move generation\<close>

lemma moves_for_total:
  "pos_to_coords (pos_of b pc) = Inr fr \<Longrightarrow> \<exists>ms. moves_for b pc = Inr ms"
  by (cases fr; cases "ptype (heap b pc)")
     (simp_all add: moves_for_def get_pawn_moves_def get_knight_moves_def get_bishop_moves_def
        get_rook_moves_def get_queen_moves_def get_king_moves_def Let_def)

lemma moves_for_valid:
  "is_valid_position (pos_of b pc) \<Longrightarrow> \<exists>ms. moves_for b pc = Inr ms"
  using valid_pos_to_coords moves_for_total by blast

lemma extend_all_total:
  "list_all (\<lambda>r. is_valid_position (pos_of b r)) rs \<Longrightarrow> \<exists>ms. extend_all b rs = Inr ms"
proof (induction rs)
  case Nil
  then show ?case by simp
next
  case (Cons r rs)
  then obtain ms where "moves_for b r = Inr ms" using moves_for_valid by fastforce
  moreover from Cons obtain rest where "extend_all b rs = Inr rest" by auto
  ultimately show ?case by simp
qed

lemma extend_all_Inr_iff:
  "extend_all b rs = Inr ms \<Longrightarrow> list_all (\<lambda>r. \<exists>m. moves_for b r = Inr m) rs"
  by (induction rs arbitrary: ms) (auto split: sum.splits)

lemma any_move_to_eq:
  "extend_all b rs = Inr ms \<Longrightarrow> any_move_to b pos rs = Inr (list_ex (\<lambda>m. to_pos m = pos) ms)"
  by (induction rs arbitrary: ms) (auto split: sum.splits simp: list_ex_iff)

lemma valid_board_filter:
  "valid_board b \<Longrightarrow> list_all (\<lambda>r. is_valid_position (pos_of b r)) (filter P (pieces b))"
  by (simp add: valid_board_def list_all_iff)

lemma get_legal_moves_total:
  "valid_board b \<Longrightarrow> \<exists>ms. get_legal_moves b c = Inr ms"
  unfolding get_legal_moves_def get_pieces_by_color_def
  by (rule extend_all_total) (rule valid_board_filter)

text \<open>The moves generated on the starting board, in the order of generation.\<close>

lemma start_white_moves:
  "get_legal_moves new_ChessBoard WHITE =
     Inr (map (\<lambda>(f, t, r). new_Move f t r False)
       [(''a2'', ''a3'', 0), (''a2'', ''a4'', 0), (''b2'', ''b3'', 1), (''b2'', ''b4'', 1),
        (''c2'', ''c3'', 2), (''c2'', ''c4'', 2), (''d2'', ''d3'', 3), (''d2'', ''d4'', 3),
        (''e2'', ''e3'', 4), (''e2'', ''e4'', 4), (''f2'', ''f3'', 5), (''f2'', ''f4'', 5),
        (''g2'', ''g3'', 6), (''g2'', ''g4'', 6), (''h2'', ''h3'', 7), (''h2'', ''h4'', 7),
        (''b1'', ''a3'', 9), (''b1'', ''c3'', 9), (''g1'', ''f3'', 14), (''g1'', ''h3'', 14)])"
  by code_simp

lemma start_black_moves:
  "get_legal_moves new_ChessBoard BLACK =
     Inr (map (\<lambda>(f, t, r). new_Move f t r False)
       [(''a7'', ''a6'', 16), (''a7'', ''a5'', 16), (''b7'', ''b6'', 17), (''b7'', ''b5'', 17),
        (''c7'', ''c6'', 18), (''c7'', ''c5'', 18), (''d7'', ''d6'', 19), (''d7'', ''d5'', 19),
        (''e7'', ''e6'', 20), (''e7'', ''e5'', 20), (''f7'', ''f6'', 21), (''f7'', ''f5'', 21),
        (''g7'', ''g6'', 22), (''g7'', ''g5'', 22), (''h7'', ''h6'', 23), (''h7'', ''h5'', 23),
        (''b8'', ''a6'', 25), (''b8'', ''c6'', 25), (''g8'', ''f6'', 30), (''g8'', ''h6'', 30)])"
  by code_simp

text \<open>
  C5. On the board the constructor builds, \<open>get_legal_moves\<close> returns 20 moves for
  White and 20 for Black, and the piece on \<open>b1\<close> is a knight whose generated moves are
  the two to \<open>a3\<close> and \<open>c3\<close>.
\<close>

theorem starting_position_moves:
  "(\<exists>ms. get_legal_moves new_ChessBoard WHITE = Inr ms \<and> length ms = 20) \<and>
   (\<exists>ms. get_legal_moves new_ChessBoard BLACK = Inr ms \<and> length ms = 20) \<and>
   get_piece_at new_ChessBoard ''b1'' = Some 9 \<and>
   ptype (heap new_ChessBoard 9) = KNIGHT \<and>
   get_knight_moves new_ChessBoard 9 =
     Inr [new_Move ''b1'' ''a3'' 9 False, new_Move ''b1'' ''c3'' 9 False]"
proof -
  have w: "\<exists>ms. get_legal_moves new_ChessBoard WHITE = Inr ms \<and> length ms = 20"
    by (simp add: start_white_moves)
  have k: "\<exists>ms. get_legal_moves new_ChessBoard BLACK = Inr ms \<and> length ms = 20"
    by (simp add: start_black_moves)
  have p: "get_piece_at new_ChessBoard ''b1'' = Some 9" by code_simp
  have t: "ptype (heap new_ChessBoard 9) = KNIGHT" by code_simp
  have m: "get_knight_moves new_ChessBoard 9 =
     Inr [new_Move ''b1'' ''a3'' 9 False, new_Move ''b1'' ''c3'' 9 False]" by code_simp
  from w k p t m show ?thesis by blast
qed

text \<open>
  C3 fails on the code. On the starting board \<open>is_attacked("e4", WHITE)\<close> is true,
  and the only generated White move to \<open>e4\<close> is the non-capturing double step of the
  pawn on \<open>e2\<close>: \<open>is_attacked\<close> scans every generated move and never looks at
  \<open>captures\<close>.
\<close>

theorem is_attacked_counts_pawn_push:
  "is_attacked new_ChessBoard ''e4'' WHITE = Inr True \<and>
   map_sum id (filter (\<lambda>m. to_pos m = ''e4'')) (get_legal_moves new_ChessBoard WHITE)
     = Inr [new_Move ''e2'' ''e4'' 4 False] \<and>
   ptype (heap new_ChessBoard 4) = PAWN"
proof -
  have b: "map_sum id (filter (\<lambda>m. to_pos m = ''e4'')) (get_legal_moves new_ChessBoard WHITE)
     = Inr [new_Move ''e2'' ''e4'' 4 False]"
    by (simp add: start_white_moves new_Move_def)
  have "any_move_to new_ChessBoard ''e4'' (get_pieces_by_color new_ChessBoard WHITE) = Inr True"
    by (subst any_move_to_eq [OF start_white_moves [unfolded get_legal_moves_def]])
       (simp add: new_Move_def)
  then have a: "is_attacked new_ChessBoard ''e4'' WHITE = Inr True"
    by (simp add: is_attacked_def)
  have c: "ptype (heap new_ChessBoard 4) = PAWN" by code_simp
  from a b c show ?thesis by blast
qed

section \<open>Properties: forks\<close>

lemma filter_pos_le1:
  "distinct (map f xs) \<Longrightarrow> length (filter (\<lambda>x. f x = v) xs) \<le> 1"
proof (induction xs)
  case Nil
  then show ?case by simp
next
  case (Cons x xs)
  show ?case
  proof (cases "f x = v")
    case True
    with Cons.prems have "filter (\<lambda>y. f y = v) xs = []"
      by (force simp: filter_empty_conv image_iff)
    with True show ?thesis by simp
  next
    case False
    with Cons show ?thesis by simp
  qed
qed

lemma one_per_square_by_color:
  "one_piece_per_square b \<Longrightarrow>
     length (filter (\<lambda>opponent. pos_of b opponent = v) (get_pieces_by_color b c)) \<le> 1"
  unfolding one_piece_per_square_def get_pieces_by_color_def
  by (intro filter_pos_le1 distinct_map_filter)

lemma forks_of_moves_empty:
  "(\<And>v. length (filter (\<lambda>opponent. pos_of b opponent = v) opp) \<le> 1) \<Longrightarrow>
     forks_of_moves b opp pc ms = []"
proof (induction ms)
  case Nil
  then show ?case by (simp add: forks_of_moves_def)
next
  case (Cons m ms)
  have "\<not> int (length (filter (\<lambda>opponent. pos_of b opponent = to_pos m) opp)) \<ge> 2"
    using Cons.prems [of "to_pos m"] by simp
  with Cons show ?case by (simp add: forks_of_moves_def Let_def)
qed

lemma forks_loop_empty:
  "(\<And>v. length (filter (\<lambda>opponent. pos_of b opponent = v) opp) \<le> 1) \<Longrightarrow>
     forks_loop b opp rs = Inr fs \<Longrightarrow> fs = []"
  by (induction rs arbitrary: fs) (auto split: sum.splits simp: forks_of_moves_empty)

lemma forks_loop_total:
  "list_all (\<lambda>r. is_valid_position (pos_of b r)) rs \<Longrightarrow> \<exists>fs. forks_loop b opp rs = Inr fs"
proof (induction rs)
  case Nil
  then show ?case by simp
next
  case (Cons r rs)
  then obtain ms where "moves_for b r = Inr ms" using moves_for_valid by fastforce
  moreover from Cons obtain rest where "forks_loop b opp rs = Inr rest" by auto
  ultimately show ?case by simp
qed

text \<open>
  C6. On a board where no two entries of the list share a position, at most one
  opponent piece stands on any destination, so \<open>attacked_count >= 2\<close> never holds:
  whenever \<open>detect_forks\<close> returns, it returns the empty list, and it does return on a
  board whose positions are all squares.
\<close>

theorem detect_forks_inert:
  "one_piece_per_square b \<Longrightarrow>
     (\<forall>fs. detect_forks b c = Inr fs \<longrightarrow> fs = []) \<and>
     (valid_board b \<longrightarrow> detect_forks b c = Inr [])"
proof -
  assume inv: "one_piece_per_square b"
  have a: "\<And>fs. detect_forks b c = Inr fs \<Longrightarrow> fs = []"
    unfolding detect_forks_def
    by (erule forks_loop_empty [rotated]) (rule one_per_square_by_color [OF inv])
  have "valid_board b \<Longrightarrow> \<exists>fs. detect_forks b c = Inr fs"
    unfolding detect_forks_def get_pieces_by_color_def
    by (rule forks_loop_total) (rule valid_board_filter)
  with a have "valid_board b \<Longrightarrow> detect_forks b c = Inr []" by blast
  with a show ?thesis by blast
qed

lemma start_one_piece_per_square: "one_piece_per_square new_ChessBoard"
  by code_simp

lemma start_valid_board: "valid_board new_ChessBoard"
  by code_simp

theorem detect_forks_inert_witness:
  "one_piece_per_square new_ChessBoard \<and> valid_board new_ChessBoard \<and>
   detect_forks new_ChessBoard WHITE = Inr []"
  using detect_forks_inert [OF start_one_piece_per_square, of WHITE]
    start_one_piece_per_square start_valid_board
  by simp

section \<open>Properties: evaluation\<close>

text \<open>No piece has more than 56 generated moves.\<close>

lemma ray_length: "length (ray b pc f r dir ds) \<le> length ds"
  by (induction ds) (auto split: option.splits)

lemma offset_move_length: "length (offset_move b pc f r off) \<le> 1"
  by (simp add: offset_move_def split: option.splits)

lemma length_concat_map_le:
  "(\<And>x. x \<in> set xs \<Longrightarrow> length (g x) \<le> k) \<Longrightarrow> length (concat (map g xs)) \<le> k * length xs"
  by (induction xs) (auto simp: add_mono)

lemma pawn_moves_length: "get_pawn_moves b pc = Inr ms \<Longrightarrow> length ms \<le> 56"
proof -
  assume h: "get_pawn_moves b pc = Inr ms"
  then obtain f r where fr: "pos_to_coords (pos_of b pc) = Inr (f, r)"
    by (auto simp: get_pawn_moves_def split: sum.splits)
  define direction :: int where "direction = (if color (heap b pc) = WHITE then 1 else - 1)"
  define diagonal where "diagonal =
     concat (map (\<lambda>file_offset.
        case coords_to_pos (f + file_offset) (r + direction) of
          None \<Rightarrow> []
        | Some capture_pos \<Rightarrow>
            (case get_piece_at b capture_pos of
               None \<Rightarrow> []
             | Some target \<Rightarrow>
                 if color (heap b target) \<noteq> color (heap b pc)
                 then [new_Move (pos_of b pc) capture_pos pc True]
                 else []))
        [- 1, 1])"
  from h fr obtain forward where ms: "ms = forward @ diagonal" and fw: "length forward \<le> 2"
    unfolding get_pawn_moves_def Let_def diagonal_def direction_def
    by (simp split: option.splits if_splits) auto
  have "length diagonal \<le> 1 * length [- 1, 1 :: int]"
    unfolding diagonal_def
    by (rule length_concat_map_le) (simp split: option.splits)
  with ms fw show ?thesis by simp
qed

lemma knight_moves_length: "get_knight_moves b pc = Inr ms \<Longrightarrow> length ms \<le> 56"
proof -
  assume "get_knight_moves b pc = Inr ms"
  then obtain f r where "ms = concat (map (offset_move b pc f r) knight_offsets)"
    by (auto simp: get_knight_moves_def split: sum.splits)
  moreover have "length (concat (map (offset_move b pc f r) knight_offsets)) \<le> 1 * length knight_offsets"
    by (rule length_concat_map_le) (rule offset_move_length)
  ultimately show ?thesis by (simp add: knight_offsets_def)
qed

lemma king_moves_length: "get_king_moves b pc = Inr ms \<Longrightarrow> length ms \<le> 56"
proof -
  assume "get_king_moves b pc = Inr ms"
  then obtain f r where "ms = concat (map (offset_move b pc f r) king_directions)"
    by (auto simp: get_king_moves_def split: sum.splits)
  moreover have "length (concat (map (offset_move b pc f r) king_directions)) \<le> 1 * length king_directions"
    by (rule length_concat_map_le) (rule offset_move_length)
  ultimately show ?thesis by (simp add: king_directions_def)
qed

lemma rays_length:
  "length (concat (map (\<lambda>dir. ray b pc f r dir [1, 2, 3, 4, 5, 6, 7]) dirs)) \<le> 7 * length dirs"
  by (rule length_concat_map_le) (rule order_trans [OF ray_length], simp)

lemma bishop_moves_length: "get_bishop_moves b pc = Inr ms \<Longrightarrow> length ms \<le> 28"
  using rays_length [of b pc _ _ bishop_directions]
  by (auto simp: get_bishop_moves_def bishop_directions_def split: sum.splits)

lemma rook_moves_length: "get_rook_moves b pc = Inr ms \<Longrightarrow> length ms \<le> 28"
  using rays_length [of b pc _ _ rook_directions]
  by (auto simp: get_rook_moves_def rook_directions_def split: sum.splits)

lemma queen_moves_length: "get_queen_moves b pc = Inr ms \<Longrightarrow> length ms \<le> 56"
  by (auto simp: get_queen_moves_def split: sum.splits
      dest!: bishop_moves_length rook_moves_length)

lemma moves_for_length: "moves_for b pc = Inr ms \<Longrightarrow> length ms \<le> 56"
  using pawn_moves_length [of b pc ms] knight_moves_length [of b pc ms]
    king_moves_length [of b pc ms] queen_moves_length [of b pc ms]
    bishop_moves_length [of b pc ms] rook_moves_length [of b pc ms]
  by (cases "ptype (heap b pc)") (simp_all add: moves_for_def)

lemma extend_all_length: "extend_all b rs = Inr ms \<Longrightarrow> length ms \<le> 56 * length rs"
proof (induction rs arbitrary: ms)
  case Nil
  then show ?case by simp
next
  case (Cons r rs)
  from Cons.prems obtain m rest where m: "moves_for b r = Inr m"
    and rest: "extend_all b rs = Inr rest" and ms: "ms = m @ rest"
    by (auto split: sum.splits)
  from moves_for_length [OF m] Cons.IH [OF rest] show ?case by (simp add: ms)
qed

lemma get_legal_moves_length:
  "get_legal_moves b c = Inr ms \<Longrightarrow> length ms \<le> 56 * length (pieces b)"
proof -
  assume "get_legal_moves b c = Inr ms"
  then have "length ms \<le> 56 * length (get_pieces_by_color b c)"
    unfolding get_legal_moves_def by (rule extend_all_length)
  moreover have "length (get_pieces_by_color b c) \<le> length (pieces b)"
    by (simp add: get_pieces_by_color_def)
  ultimately show ?thesis by simp
qed

lemma activity_bound:
  fixes w k n :: int
  assumes "0 \<le> w" "w \<le> 56 * n" "0 \<le> k" "k \<le> 56 * n"
  shows "\<bar>(w - k) * 2\<bar> \<le> 112 * n"
  using assms by (intro abs_leI) simp_all

lemma evaluate_activity_ok:
  assumes "valid_board b"
  shows "\<exists>a. evaluate_activity b = Inr a \<and> even a \<and> \<bar>a\<bar> \<le> 112 * int (length (pieces b))"
proof -
  from get_legal_moves_total [OF assms] obtain wm bm where
    wm: "get_legal_moves b WHITE = Inr wm" and bm: "get_legal_moves b BLACK = Inr bm"
    by blast
  from get_legal_moves_length [OF wm] have w: "int (length wm) \<le> 56 * int (length (pieces b))"
    by (metis of_nat_le_iff of_nat_mult of_nat_numeral)
  from get_legal_moves_length [OF bm] have k: "int (length bm) \<le> 56 * int (length (pieces b))"
    by (metis of_nat_le_iff of_nat_mult of_nat_numeral)
  have "\<bar>(int (length wm) - int (length bm)) * 2\<bar> \<le> 112 * int (length (pieces b))"
    by (rule activity_bound [OF _ w _ k]) simp_all
  then show ?thesis by (simp add: evaluate_activity_def wm bm)
qed

lemma material_foldl_white:
  "foldl (\<lambda>acc pc. if color (heap b pc) = WHITE
                     then acc + piece_value (heap b pc) * 100 else acc) acc rs \<ge> acc \<and>
   foldl (\<lambda>acc pc. if color (heap b pc) = WHITE
                     then acc + piece_value (heap b pc) * 100 else acc) acc rs
     \<le> acc + 900 * int (length rs)"
proof (induction rs arbitrary: acc)
  case Nil
  then show ?case by simp
next
  case (Cons r rs)
  have v: "0 \<le> piece_value (heap b r)" "piece_value (heap b r) \<le> 9"
    by (cases "ptype (heap b r)"; simp add: piece_value_def)+
  show ?case
  proof (cases "color (heap b r) = WHITE")
    case True
    with Cons [of "acc + piece_value (heap b r) * 100"] v show ?thesis by simp
  next
    case False
    with Cons [of acc] show ?thesis by simp
  qed
qed

lemma material_foldl_black:
  "foldl (\<lambda>acc pc. if color (heap b pc) = WHITE
                     then acc else acc + piece_value (heap b pc) * 100) acc rs \<ge> acc \<and>
   foldl (\<lambda>acc pc. if color (heap b pc) = WHITE
                     then acc else acc + piece_value (heap b pc) * 100) acc rs
     \<le> acc + 900 * int (length rs)"
proof (induction rs arbitrary: acc)
  case Nil
  then show ?case by simp
next
  case (Cons r rs)
  have v: "0 \<le> piece_value (heap b r)" "piece_value (heap b r) \<le> 9"
    by (cases "ptype (heap b r)"; simp add: piece_value_def)+
  show ?case
  proof (cases "color (heap b r) = WHITE")
    case True
    with Cons [of acc] show ?thesis by simp
  next
    case False
    with Cons [of "acc + piece_value (heap b r) * 100"] v show ?thesis by simp
  qed
qed

lemma evaluate_material_bound:
  "\<bar>evaluate_material b\<bar> \<le> 900 * int (length (pieces b))"
proof -
  define w where "w = foldl (\<lambda>acc pc. if color (heap b pc) = WHITE
                     then acc + piece_value (heap b pc) * 100 else acc) 0 (pieces b)"
  define k where "k = foldl (\<lambda>acc pc. if color (heap b pc) = WHITE
                     then acc else acc + piece_value (heap b pc) * 100) 0 (pieces b)"
  from material_foldl_white [of 0 b "pieces b"]
  have w: "0 \<le> w" "w \<le> 900 * int (length (pieces b))" by (simp_all add: w_def)
  from material_foldl_black [of 0 b "pieces b"]
  have k: "0 \<le> k" "k \<le> 900 * int (length (pieces b))" by (simp_all add: k_def)
  have "w - k \<le> 900 * int (length (pieces b))" using w k by linarith
  moreover have "- (w - k) \<le> 900 * int (length (pieces b))" using w k by linarith
  ultimately have "\<bar>w - k\<bar> \<le> 900 * int (length (pieces b))" by (rule abs_leI)
  then show ?thesis by (simp add: evaluate_material_def Let_def w_def k_def)
qed


lemma doubled_score_foldl:
  "foldl (\<lambda>score (f, c). if c > 1 then score - 20 * (c - 1) else score) acc items
     = acc - penalty items"
  by (induction items arbitrary: acc) (auto simp: penalty_def)

lemma doubled_score_penalty: "doubled_score items = - penalty items"
  by (simp add: doubled_score_def doubled_score_foldl)

lemma penalty_nonneg: "0 \<le> penalty items"
  unfolding penalty_def by (rule sum_list_nonneg) auto

lemma penalty_dict_incr: "penalty (dict_incr k d) \<le> penalty d + 20"
  by (induction d) (auto simp: penalty_def)

lemma valid_position_nonempty: "is_valid_position p \<Longrightarrow> p \<noteq> []"
  by (auto simp: is_valid_position_def)

lemma count_files_ok:
  "list_all (\<lambda>r. is_valid_position (pos_of b r)) rs \<Longrightarrow>
     \<exists>d'. count_files b rs d = Inr d' \<and> penalty d' \<le> penalty d + 20 * int (length rs)"
proof (induction rs arbitrary: d)
  case Nil
  then show ?case by simp
next
  case (Cons r rs)
  then have "pos_of b r \<noteq> []" by (simp add: valid_position_nonempty)
  then obtain c cs where p: "pos_of b r = c # cs" by (cases "pos_of b r") auto
  from Cons obtain d' where d': "count_files b rs (dict_incr c d) = Inr d'"
    and le: "penalty d' \<le> penalty (dict_incr c d) + 20 * int (length rs)"
    by fastforce
  from le penalty_dict_incr [of c d] have "penalty d' \<le> penalty d + 20 * int (length (r # rs))"
    by simp
  with d' p show ?case by simp
qed

lemma filter_length_int: "int (length (filter P xs)) \<le> int (length xs)"
  by simp

lemma evaluate_pawns_ok:
  assumes "valid_board b"
  shows "\<exists>p. evaluate_pawns b = Inr p \<and> \<bar>p\<bar> \<le> 20 * int (length (pieces b))"
proof -
  define wp where "wp = get_pieces_by_type b PAWN (Some WHITE)"
  define bp where "bp = get_pieces_by_type b PAWN (Some BLACK)"
  have vw: "list_all (\<lambda>r. is_valid_position (pos_of b r)) wp"
    and vb: "list_all (\<lambda>r. is_valid_position (pos_of b r)) bp"
    unfolding wp_def bp_def get_pieces_by_type_def
    using valid_board_filter [OF assms] by simp_all
  have lw: "int (length wp) \<le> int (length (pieces b))"
    and lb: "int (length bp) \<le> int (length (pieces b))"
    by (simp_all add: wp_def bp_def get_pieces_by_type_def)
  from count_files_ok [OF vw, of "[]"] obtain wf where
    wf: "count_files b wp [] = Inr wf" and wl: "penalty wf \<le> 20 * int (length wp)"
    by (auto simp: penalty_def)
  from count_files_ok [OF vb, of "[]"] obtain bf where
    bf: "count_files b bp [] = Inr bf" and bl: "penalty bf \<le> 20 * int (length bp)"
    by (auto simp: penalty_def)
  have e: "evaluate_pawns b = Inr (doubled_score wf - doubled_score bf)"
    by (simp add: evaluate_pawns_def Let_def wp_def [symmetric] bp_def [symmetric] wf bf)
  have "doubled_score wf - doubled_score bf \<le> 20 * int (length (pieces b))"
    using penalty_nonneg [of wf] bl lb by (simp add: doubled_score_penalty)
  moreover have "- (doubled_score wf - doubled_score bf) \<le> 20 * int (length (pieces b))"
    using penalty_nonneg [of bf] wl lw by (simp add: doubled_score_penalty)
  ultimately have "\<bar>doubled_score wf - doubled_score bf\<bar> \<le> 20 * int (length (pieces b))"
    by (rule abs_leI)
  with e show ?thesis by blast
qed

lemma shelter_ok:
  "list_all (\<lambda>r. is_valid_position (pos_of b r)) rs \<Longrightarrow>
     \<exists>j. shelter b c f r rs bonus = Inr (bonus + 10 * j) \<and> 0 \<le> j \<and> j \<le> int (length rs)"
proof (induction rs arbitrary: bonus)
  case Nil
  then show ?case by simp
next
  case (Cons pawn rs)
  then have "is_valid_position (pos_of b pawn)" by simp
  from valid_pos_to_coords [OF this] obtain pf pr where
    pc: "pos_to_coords (pos_of b pawn) = Inr (pf, pr)" by blast
  define hit where "hit \<longleftrightarrow> \<bar>pf - f\<bar> \<le> 1 \<and>
     ((c = WHITE \<and> pr \<ge> r - 1) \<or> (\<not> (c = WHITE \<and> pr \<ge> r - 1) \<and> c = BLACK \<and> pr \<le> r + 1))"
  have step: "shelter b c f r (pawn # rs) bonus =
                shelter b c f r rs (if hit then bonus + 10 else bonus)"
    by (auto simp: pc hit_def)
  from Cons obtain j where j: "shelter b c f r rs (if hit then bonus + 10 else bonus)
        = Inr ((if hit then bonus + 10 else bonus) + 10 * j)"
    and jb: "0 \<le> j" "j \<le> int (length rs)"
    by fastforce
  show ?case
  proof (cases hit)
    case True
    with step j jb show ?thesis by (intro exI [of _ "j + 1"]) simp
  next
    case False
    with step j jb show ?thesis by (intro exI [of _ j]) simp
  qed
qed


lemma find_kings_foldl:
  assumes "\<And>k. fst acc = Some k \<Longrightarrow> k \<in> A" "\<And>k. snd acc = Some k \<Longrightarrow> k \<in> A"
    and "set rs \<subseteq> A"
  shows "(\<forall>k. fst (foldl (\<lambda>(white_king, black_king) pc.
              if ptype (heap b pc) = KING then
                (if color (heap b pc) = WHITE then (Some pc, black_king)
                 else (white_king, Some pc))
              else (white_king, black_king)) acc rs) = Some k \<longrightarrow> k \<in> A) \<and>
         (\<forall>k. snd (foldl (\<lambda>(white_king, black_king) pc.
              if ptype (heap b pc) = KING then
                (if color (heap b pc) = WHITE then (Some pc, black_king)
                 else (white_king, Some pc))
              else (white_king, black_king)) acc rs) = Some k \<longrightarrow> k \<in> A)"
  using assms
proof (induction rs arbitrary: acc)
  case Nil
  then show ?case by simp
next
  case (Cons r rs)
  obtain w k where acc: "acc = (w, k)" by (cases acc)
  show ?case
    unfolding foldl_Cons
    by (rule Cons.IH) (use Cons.prems acc in \<open>auto split: if_splits\<close>)
qed

lemma find_kings_in_pieces:
  "fst (find_kings b) = Some k \<Longrightarrow> k \<in> set (pieces b)"
  "snd (find_kings b) = Some k \<Longrightarrow> k \<in> set (pieces b)"
  using find_kings_foldl [of "(None, None)" "set (pieces b)" "pieces b" b]
  by (simp_all add: find_kings_def)

lemma assess_king_safety_ok:
  assumes v: "valid_board b" and k: "\<And>r. king = Some r \<Longrightarrow> r \<in> set (pieces b)"
  shows "\<exists>s. assess_king_safety b king c = Inr s \<and> even s \<and> - 200 \<le> s \<and>
             s \<le> 10 * int (length (pieces b))"
proof (cases king)
  case None
  then show ?thesis by (simp add: assess_king_safety_def)
next
  case (Some r)
  with k v have "is_valid_position (pos_of b r)" by (simp add: valid_board_def list_all_iff)
  from valid_pos_to_coords [OF this] obtain f rk where
    pc: "pos_to_coords (pos_of b r) = Inr (f, rk)" by blast
  define pawns where "pawns = get_pieces_by_type b PAWN (Some c)"
  have "list_all (\<lambda>r. is_valid_position (pos_of b r)) pawns"
    unfolding pawns_def get_pieces_by_type_def using valid_board_filter [OF v] by simp
  from shelter_ok [OF this, of c f rk 0] obtain j where
    sh: "shelter b c f rk pawns 0 = Inr (10 * j)" and j: "0 \<le> j" "j \<le> int (length pawns)"
    by auto
  have "int (length pawns) \<le> int (length (pieces b))"
    by (simp add: pawns_def get_pieces_by_type_def)
  with j have jn: "j \<le> int (length (pieces b))" by simp
  define safety :: int where "safety = (if min \<bar>of_int f - (7 / 2 :: rat)\<bar> \<bar>of_int f - 9 / 2\<bar>
                      + min \<bar>of_int rk - 7 / 2\<bar> \<bar>of_int rk - 9 / 2\<bar> < 2 then - 30 else 0)"
  have s: "safety = - 30 \<or> safety = 0" by (simp add: safety_def)
  have e: "assess_king_safety b king c = Inr (safety + 10 * j)"
    by (simp add: assess_king_safety_def Some pc Let_def pawns_def [symmetric] sh safety_def)
  from s j jn have "even (safety + 10 * j) \<and> - 200 \<le> safety + 10 * j \<and>
      safety + 10 * j \<le> 10 * int (length (pieces b))"
    by auto
  with e show ?thesis by blast
qed

lemma king_safety_bound:
  fixes w k n :: int
  assumes "- 200 \<le> w" "w \<le> 10 * n" "- 200 \<le> k" "k \<le> 10 * n"
  shows "\<bar>w - k\<bar> \<le> 200 + 10 * n"
  using assms by (intro abs_leI) simp_all

lemma evaluate_king_safety_ok:
  assumes "valid_board b"
  shows "\<exists>k. evaluate_king_safety b = Inr k \<and> even k \<and>
           \<bar>k\<bar> \<le> 200 + 10 * int (length (pieces b))"
proof -
  from assess_king_safety_ok [OF assms find_kings_in_pieces(1), of "fst (find_kings b)" WHITE]
  obtain w where w: "assess_king_safety b (fst (find_kings b)) WHITE = Inr w"
    and we: "even w" and wb: "- 200 \<le> w" "w \<le> 10 * int (length (pieces b))" by auto
  from assess_king_safety_ok [OF assms find_kings_in_pieces(2), of "snd (find_kings b)" BLACK]
  obtain k where k: "assess_king_safety b (snd (find_kings b)) BLACK = Inr k"
    and ke: "even k" and kb: "- 200 \<le> k" "k \<le> 10 * int (length (pieces b))" by auto
  have "evaluate_king_safety b = Inr (w - k)" by (simp add: evaluate_king_safety_def w k)
  moreover have "even (w - k)" using we ke by simp
  moreover have "\<bar>w - k\<bar> \<le> 200 + 10 * int (length (pieces b))"
    by (rule king_safety_bound [OF wb kb])
  ultimately show ?thesis by blast
qed

lemma evaluate_ok:
  assumes v: "valid_board b" and n: "length (pieces b) \<le> 2 ^ 20"
  shows "\<exists>ev. evaluate b = Inr ev \<and>
           total ev = round (2 / 5 * of_int (material ev) + 3 / 10 * of_int (activity ev)
                             + 1 / 5 * of_int (pawn_structure ev)
                             + 1 / 10 * of_int (king_safety ev) :: rat)"
proof -
  define N where "N = int (length (pieces b))"
  from n have N: "N \<le> 2 ^ 20" unfolding N_def
    by (metis of_nat_le_iff of_nat_numeral of_nat_power)
  have N0: "0 \<le> N" by (simp add: N_def)
  define m where "m = evaluate_material b"
  have mb: "\<bar>m\<bar> \<le> 900 * N" unfolding m_def N_def by (rule evaluate_material_bound)
  from evaluate_activity_ok [OF v] obtain a where a: "evaluate_activity b = Inr a"
    and ae: "even a" and ab: "\<bar>a\<bar> \<le> 112 * N" unfolding N_def by blast
  from evaluate_pawns_ok [OF v] obtain p where p: "evaluate_pawns b = Inr p"
    and pb: "\<bar>p\<bar> \<le> 20 * N" unfolding N_def by blast
  from evaluate_king_safety_ok [OF v] obtain k where k: "evaluate_king_safety b = Inr k"
    and ke: "even k" and kb: "\<bar>k\<bar> \<le> 200 + 10 * N" unfolding N_def by blast
  have b30: "\<bar>m\<bar> \<le> 2 ^ 30" "\<bar>a\<bar> \<le> 2 ^ 30" "\<bar>p\<bar> \<le> 2 ^ 30" "\<bar>k\<bar> \<le> 2 ^ 30"
    using mb ab pb kb N N0 by simp_all
  from weighted_total_rounds [OF b30 ae ke] obtain T where
    T: "weighted_total m a p k = Inr (Finite T)"
    and r: "py_round (Finite T) =
             Inr (round (2 / 5 * of_int m + 3 / 10 * of_int a + 1 / 5 * of_int p
                         + 1 / 10 * of_int k :: rat))" by blast
  show ?thesis
    by (simp add: evaluate_def Let_def m_def [symmetric] a p k T r del: py_round.simps)
qed


lemma squares_length: "length squares = 64"
  by (simp add: squares_def FILES_def RANKS_def)

lemma board_at_most_64:
  assumes "valid_board b" "one_piece_per_square b"
  shows "length (pieces b) \<le> 64"
proof -
  have "set (map (pos_of b) (pieces b)) \<subseteq> set squares"
    using assms(1) by (auto simp: valid_board_def list_all_iff valid_in_squares)
  then have "card (set (map (pos_of b) (pieces b))) \<le> card (set squares)"
    by (intro card_mono) simp_all
  also have "\<dots> \<le> length squares" by (rule card_length)
  finally have "card (set (map (pos_of b) (pieces b))) \<le> 64" by (simp add: squares_length)
  moreover have "card (set (map (pos_of b) (pieces b))) = length (map (pos_of b) (pieces b))"
    using assms(2) unfolding one_piece_per_square_def by (rule distinct_card)
  ultimately show ?thesis by simp
qed

text \<open>
  C1. On a board of the spec's data model (every piece on one of the 64 squares, no two
  on the same square) \<open>evaluate\<close> returns, and the \<open>total\<close> of the record is the
  integer nearest to the exact weighted sum of the record's four sub-scores: the float
  arithmetic of the code, rounded by \<open>round\<close>, lands on that integer. The sum is a
  multiple of one fifth, so there is never a tie.
\<close>

theorem evaluate_total_is_rounded_weighted_sum:
  assumes "valid_board b" and "one_piece_per_square b"
  shows "\<exists>ev. evaluate b = Inr ev \<and>
           total ev = round (2 / 5 * of_int (material ev) + 3 / 10 * of_int (activity ev)
                             + 1 / 5 * of_int (pawn_structure ev)
                             + 1 / 10 * of_int (king_safety ev) :: rat)"
proof -
  from board_at_most_64 [OF assms] have "length (pieces b) \<le> 2 ^ 20" by simp
  with assms(1) show ?thesis by (rule evaluate_ok)
qed


theorem evaluate_total_is_rounded_weighted_sum_witness:
  "valid_board new_ChessBoard \<and> one_piece_per_square new_ChessBoard \<and>
   (\<exists>ev. evaluate new_ChessBoard = Inr ev \<and>
      total ev = round (2 / 5 * of_int (material ev) + 3 / 10 * of_int (activity ev)
                        + 1 / 5 * of_int (pawn_structure ev)
                        + 1 / 10 * of_int (king_safety ev) :: rat))"
  using evaluate_total_is_rounded_weighted_sum [OF start_valid_board start_one_piece_per_square]
    start_valid_board start_one_piece_per_square
  by blast

section \<open>Properties: simulated evaluation\<close>

lemma move_piece_history:
  "get_piece_at b f = Some r \<Longrightarrow>
     move_history (snd (move_piece b f t)) = move_history b @ [f @ ''-'' @ t]"
  by (simp add: move_piece_def Let_def split: option.splits)

text \<open>
  C9. When a piece stands on \<open>from\<close>, the board that \<open>get_move_evaluation\<close>
  leaves has the history of the board it was given with the one token \<open>from-to\<close>
  appended, on every path: the normal return and each exception.
\<close>

theorem get_move_evaluation_appends_history:
  "get_piece_at b f = Some r \<Longrightarrow>
     move_history (snd (get_move_evaluation b f t)) = move_history b @ [f @ ''-'' @ t]"
  by (simp add: get_move_evaluation_def Let_def move_piece_history
      split: sum.splits option.splits)

theorem get_move_evaluation_appends_history_witness:
  "get_piece_at new_ChessBoard ''e2'' = Some 4 \<and>
   move_history (snd (get_move_evaluation new_ChessBoard ''e2'' ''e4'')) = [''e2-e4'']"
proof -
  have h: "get_piece_at new_ChessBoard ''e2'' = Some 4" by code_simp
  have e: "move_history new_ChessBoard = []" by code_simp
  from get_move_evaluation_appends_history [OF h, of "''e4''"] h e show ?thesis by simp
qed

section \<open>Properties: hanging pieces\<close>

lemma piece_value_zero_iff: "piece_value p = 0 \<longleftrightarrow> ptype p = KING"
  by (cases "ptype p") (simp_all add: piece_value_def)

lemma any_move_to_total:
  "list_all (\<lambda>r. \<exists>ms. moves_for b r = Inr ms) rs \<Longrightarrow>
     any_move_to b pos rs =
       Inr (\<exists>d \<in> set rs. \<exists>ms. moves_for b d = Inr ms \<and> (\<exists>m \<in> set ms. to_pos m = pos))"
  by (induction rs) (auto simp: list_ex_iff)

lemma valid_moves_for_all:
  "valid_board b \<Longrightarrow> list_all (\<lambda>r. \<exists>ms. moves_for b r = Inr ms) (get_pieces_by_color b c)"
  by (auto simp: valid_board_def get_pieces_by_color_def list_all_iff intro: moves_for_valid)

lemma hanging_loop_char:
  assumes att: "\<And>pos. \<exists>a. is_attacked b pos oc = Inr a"
    and def: "\<And>pos. \<exists>d. any_move_to b pos ps = Inr d"
  shows "\<exists>hs. hanging_loop b oc ps rest = Inr hs \<and>
           (\<forall>r. r \<in> hanging_piece ` set hs \<longleftrightarrow>
                r \<in> set rest \<and> ptype (heap b r) \<noteq> KING \<and>
                is_attacked b (pos_of b r) oc = Inr True \<and>
                any_move_to b (pos_of b r) ps = Inr False)"
proof (induction rest)
  case Nil
  then show ?case by simp
next
  case (Cons pc rest)
  then obtain hs where hs: "hanging_loop b oc ps rest = Inr hs"
    and ch: "\<And>r. r \<in> hanging_piece ` set hs \<longleftrightarrow>
                r \<in> set rest \<and> ptype (heap b r) \<noteq> KING \<and>
                is_attacked b (pos_of b r) oc = Inr True \<and>
                any_move_to b (pos_of b r) ps = Inr False"
    by blast
  from att obtain a where a: "is_attacked b (pos_of b pc) oc = Inr a" by blast
  from def obtain d where d: "any_move_to b (pos_of b pc) ps = Inr d" by blast
  show ?case
  proof (cases "ptype (heap b pc) = KING")
    case True
    with hs ch show ?thesis by (auto simp: piece_value_zero_iff)
  next
    case False
    show ?thesis
    proof (cases "a \<and> \<not> d")
      case True
      with False hs a d ch show ?thesis
        by (auto simp: piece_value_zero_iff)
    next
      case no: False
      with False hs a d ch show ?thesis
        by (auto simp: piece_value_zero_iff)
    qed
  qed
qed

text \<open>
  C4. On a board whose positions are all squares, \<open>detect_hanging_pieces\<close> returns,
  and a piece of the colour that is not a king is in the result exactly when
  \<open>is_attacked\<close> holds of its square for the opponent and no piece of its own colour
  has a generated move to that square.
\<close>

theorem hanging_iff_attacked_and_undefended:
  assumes "valid_board b" and "r \<in> set (pieces b)" and "color (heap b r) = c"
    and "ptype (heap b r) \<noteq> KING"
  shows "\<exists>hs. detect_hanging_pieces b c = Inr hs \<and>
           (r \<in> hanging_piece ` set hs \<longleftrightarrow>
              is_attacked b (pos_of b r) (opposite c) = Inr True \<and>
              \<not> (\<exists>d \<in> set (get_pieces_by_color b c). \<exists>ms. moves_for b d = Inr ms \<and>
                     (\<exists>m \<in> set ms. to_pos m = pos_of b r)))"
proof -
  have att: "\<And>pos. \<exists>a. is_attacked b pos (opposite c) = Inr a"
    unfolding is_attacked_def
    using any_move_to_total [OF valid_moves_for_all [OF assms(1)]] by blast
  have def: "\<And>pos. any_move_to b pos (get_pieces_by_color b c) =
       Inr (\<exists>d \<in> set (get_pieces_by_color b c). \<exists>ms. moves_for b d = Inr ms \<and>
              (\<exists>m \<in> set ms. to_pos m = pos))"
    by (rule any_move_to_total [OF valid_moves_for_all [OF assms(1)]])
  have def': "\<And>pos. \<exists>d. any_move_to b pos (get_pieces_by_color b c) = Inr d"
    using def by blast
  from hanging_loop_char [OF att def', of "get_pieces_by_color b c"]
  obtain hs where hs: "detect_hanging_pieces b c = Inr hs"
    and ch: "\<And>r. r \<in> hanging_piece ` set hs \<longleftrightarrow>
                r \<in> set (get_pieces_by_color b c) \<and> ptype (heap b r) \<noteq> KING \<and>
                is_attacked b (pos_of b r) (opposite c) = Inr True \<and>
                any_move_to b (pos_of b r) (get_pieces_by_color b c) = Inr False"
    unfolding detect_hanging_pieces_def by blast
  have mem: "r \<in> set (get_pieces_by_color b c)"
    using assms(2,3) by (simp add: get_pieces_by_color_def)
  show ?thesis
    using hs ch [of r] mem assms(4) def [of "pos_of b r"] by auto
qed

lemma e4_d5_valid: "valid_board e4_d5"
  by code_simp

lemma e4_d5_pawn:
  "4 \<in> set (pieces e4_d5) \<and> color (heap e4_d5 4) = WHITE \<and> ptype (heap e4_d5 4) = PAWN \<and>
   pos_of e4_d5 4 = ''e4''"
  by code_simp

lemma e4_d5_attacked: "is_attacked e4_d5 ''e4'' BLACK = Inr True"
  by code_simp

lemma e4_d5_undefended:
  "any_move_to e4_d5 ''e4'' (get_pieces_by_color e4_d5 WHITE) = Inr False"
  by code_simp

theorem hanging_iff_attacked_and_undefended_witness:
  "valid_board e4_d5 \<and> 4 \<in> set (pieces e4_d5) \<and> color (heap e4_d5 4) = WHITE \<and>
   ptype (heap e4_d5 4) = PAWN \<and>
   (\<exists>hs. detect_hanging_pieces e4_d5 WHITE = Inr hs \<and> 4 \<in> hanging_piece ` set hs)"
proof -
  have k: "ptype (heap e4_d5 4) \<noteq> KING" using e4_d5_pawn by simp
  have m: "4 \<in> set (pieces e4_d5)" and c: "color (heap e4_d5 4) = WHITE"
    using e4_d5_pawn by simp_all
  have u: "\<not> (\<exists>d \<in> set (get_pieces_by_color e4_d5 WHITE). \<exists>ms. moves_for e4_d5 d = Inr ms \<and>
                 (\<exists>m \<in> set ms. to_pos m = ''e4''))"
    using e4_d5_undefended
      any_move_to_total [OF valid_moves_for_all [OF e4_d5_valid], of "''e4''" WHITE]
    by simp
  from hanging_iff_attacked_and_undefended [OF e4_d5_valid m c k] e4_d5_attacked u e4_d5_pawn
  have "\<exists>hs. detect_hanging_pieces e4_d5 WHITE = Inr hs \<and> 4 \<in> hanging_piece ` set hs"
    by simp
  with e4_d5_valid e4_d5_pawn show ?thesis by simp
qed

section \<open>Properties: the simulated move is undone\<close>

lemma find_unique:
  "r \<in> set xs \<Longrightarrow> (\<And>x. x \<in> set xs \<Longrightarrow> P x \<longleftrightarrow> x = r) \<Longrightarrow> find P xs = Some r"
  by (induction xs) auto

lemma move_piece_fields:
  assumes "get_piece_at b f = Some r"
  shows "heap (snd (move_piece b f t)) =
           (heap b)(r := (heap b r)\<lparr>position := t, move_count := move_count (heap b r) + 1\<rparr>)"
    and "pieces (snd (move_piece b f t)) =
           (case get_piece_at b t of None \<Rightarrow> pieces b | Some c \<Rightarrow> remove1 c (pieces b))"
  using assms by (auto simp: move_piece_def Let_def split: option.splits)

lemma mover_found_after_move:
  assumes inv: "one_piece_per_square b" and r: "get_piece_at b f = Some r" and ne: "f \<noteq> t"
  shows "get_piece_at (snd (move_piece b f t)) t = Some r"
proof -
  define b1 where "b1 = snd (move_piece b f t)"
  note h = move_piece_fields [OF r, of t, folded b1_def]
  from r have rin: "r \<in> set (pieces b)" and rf: "pos_of b r = f"
    by (simp_all add: get_piece_at_SomeD)
  from inv have dpos: "distinct (map (pos_of b) (pieces b))"
    by (simp add: one_piece_per_square_def)
  then have d: "distinct (pieces b)" by (simp add: distinct_map)
  from dpos have inj: "inj_on (pos_of b) (set (pieces b))" by (simp add: distinct_map)
  have sub: "set (pieces b1) \<subseteq> set (pieces b)"
    using set_remove1_subset by (fastforce simp: h split: option.splits)
  have rin1: "r \<in> set (pieces b1)"
  proof (cases "get_piece_at b t")
    case None
    with rin show ?thesis by (simp add: h)
  next
    case (Some c)
    then have "pos_of b c = t" by (simp add: get_piece_at_SomeD)
    with rf ne have "c \<noteq> r" by auto
    with rin Some show ?thesis by (simp add: h)
  qed
  have other: "pos_of b1 x \<noteq> t" if x: "x \<in> set (pieces b1)" and xr: "x \<noteq> r" for x
  proof -
    from xr have px: "pos_of b1 x = pos_of b x" by (simp add: pos_of_def h)
    show ?thesis
    proof (cases "get_piece_at b t")
      case None
      with x sub px show ?thesis by (auto simp: get_piece_at_None)
    next
      case (Some c)
      then have c: "c \<in> set (pieces b)" "pos_of b c = t" by (simp_all add: get_piece_at_SomeD)
      from x Some d have "x \<noteq> c" by (simp add: h)
      moreover from x sub have "x \<in> set (pieces b)" by auto
      ultimately have "pos_of b x \<noteq> pos_of b c" using inj c(1) by (auto dest: inj_onD)
      with px c(2) show ?thesis by simp
    qed
  qed
  have self: "pos_of b1 r = t" by (simp add: pos_of_def h)
  have "find (\<lambda>x. pos_of b1 x = t) (pieces b1) = Some r"
    by (rule find_unique [OF rin1]) (use other self in auto)
  then show ?thesis by (simp add: get_piece_at_def b1_def)
qed

lemma get_move_evaluation_frame:
  assumes inv: "one_piece_per_square b" and r: "get_piece_at b f = Some r" and ne: "f \<noteq> t"
    and ev: "evaluate (snd (move_piece b f t)) = Inr e"
  shows "\<exists>res. fst (get_move_evaluation b f t) = Inr res"
    and "heap (snd (get_move_evaluation b f t)) =
           (heap b)(r := (heap b r)\<lparr>move_count := move_count (heap b r) + 1\<rparr>)"
    and "pieces (snd (get_move_evaluation b f t)) =
           (case get_piece_at b t of
              None \<Rightarrow> remove1 r (pieces b) @ [r]
            | Some c \<Rightarrow> remove1 r (remove1 c (pieces b)) @ [r, c])"
proof -
  note found = mover_found_after_move [OF inv r ne]
  note h = move_piece_fields [OF r, of t]
  from r have rf: "position (heap b r) = f" using get_piece_at_SomeD [OF r] by (simp add: pos_of_def)
  show "\<exists>res. fst (get_move_evaluation b f t) = Inr res"
    by (simp add: get_move_evaluation_def Let_def ev found r split: option.splits)
  show "heap (snd (get_move_evaluation b f t)) =
           (heap b)(r := (heap b r)\<lparr>move_count := move_count (heap b r) + 1\<rparr>)"
    using rf by (auto simp: get_move_evaluation_def Let_def ev found r h split: option.splits)
  show "pieces (snd (get_move_evaluation b f t)) =
           (case get_piece_at b t of
              None \<Rightarrow> remove1 r (pieces b) @ [r]
            | Some c \<Rightarrow> remove1 r (remove1 c (pieces b)) @ [r, c])"
    by (auto simp: get_move_evaluation_def Let_def ev found r h split: option.splits)
qed

lemma valid_board_after_move:
  assumes "valid_board b" "is_valid_position t"
  shows "valid_board (snd (move_piece b f t))"
proof (cases "get_piece_at b f")
  case None
  with assms show ?thesis by (simp add: move_piece_def)
next
  case (Some r)
  note h = move_piece_fields [OF Some, of t]
  have "set (pieces (snd (move_piece b f t))) \<subseteq> set (pieces b)"
    using set_remove1_subset by (fastforce simp: h split: option.splits)
  with assms show ?thesis
    by (auto simp: valid_board_def list_all_iff pos_of_def h)
qed

lemma length_after_move: "length (pieces (snd (move_piece b f t))) \<le> length (pieces b)"
  by (auto simp: move_piece_def Let_def length_remove1 split: option.splits)

lemma start_white_checks:
  "case get_legal_moves new_ChessBoard WHITE of
     Inl e \<Rightarrow> False
   | Inr ms \<Rightarrow> list_all (\<lambda>m. get_piece_at new_ChessBoard (from_pos m) = Some (piece m) \<and>
                              get_piece_at new_ChessBoard (to_pos m) = None \<and>
                              is_valid_position (to_pos m) \<and> from_pos m \<noteq> to_pos m) ms"
  by (subst start_white_moves) code_simp

lemma start_black_checks:
  "case get_legal_moves new_ChessBoard BLACK of
     Inl e \<Rightarrow> False
   | Inr ms \<Rightarrow> list_all (\<lambda>m. get_piece_at new_ChessBoard (from_pos m) = Some (piece m) \<and>
                              get_piece_at new_ChessBoard (to_pos m) = None \<and>
                              is_valid_position (to_pos m) \<and> from_pos m \<noteq> to_pos m) ms"
  by (subst start_black_moves) code_simp

lemma start_checks:
  assumes "get_legal_moves new_ChessBoard c = Inr ms" "m \<in> set ms"
  shows "get_piece_at new_ChessBoard (from_pos m) = Some (piece m) \<and>
         get_piece_at new_ChessBoard (to_pos m) = None \<and>
         is_valid_position (to_pos m) \<and> from_pos m \<noteq> to_pos m"
proof (cases c)
  case WHITE
  with assms start_white_checks show ?thesis by (simp add: list_all_iff)
next
  case BLACK
  with assms start_black_checks show ?thesis by (simp add: list_all_iff)
qed

lemma set_remove1_insert: "x \<in> set xs \<Longrightarrow> insert x (set (remove1 x xs)) = set xs"
  by (induction xs) auto

lemma start_length: "length (pieces new_ChessBoard) = 32"
  by code_simp

text \<open>
  C2. For every move \<open>m\<close> that \<open>get_legal_moves\<close> generates on the starting board,
  for either colour, \<open>get_move_evaluation\<close> from \<open>m\<close>'s source to its destination
  returns normally and leaves a board with the same set of pieces, as many of them, and
  the same heap but for the mover, whose \<open>move_count\<close> is one higher: every position,
  colour and type is as before. (The list's order changes: the mover is now last.)
\<close>

theorem get_move_evaluation_round_trip_on_start:
  assumes "get_legal_moves new_ChessBoard c = Inr ms" and "m \<in> set ms"
  shows "get_piece_at new_ChessBoard (from_pos m) = Some (piece m) \<and>
         (\<exists>res. fst (get_move_evaluation new_ChessBoard (from_pos m) (to_pos m)) = Inr res) \<and>
         set (pieces (snd (get_move_evaluation new_ChessBoard (from_pos m) (to_pos m))))
           = set (pieces new_ChessBoard) \<and>
         length (pieces (snd (get_move_evaluation new_ChessBoard (from_pos m) (to_pos m))))
           = length (pieces new_ChessBoard) \<and>
         heap (snd (get_move_evaluation new_ChessBoard (from_pos m) (to_pos m)))
           = (heap new_ChessBoard)
               (piece m := (heap new_ChessBoard (piece m))
                  \<lparr>move_count := move_count (heap new_ChessBoard (piece m)) + 1\<rparr>)"
proof -
  let ?b = new_ChessBoard
  let ?f = "from_pos m" and ?t = "to_pos m" and ?r = "piece m"
  from start_checks [OF assms] have r: "get_piece_at ?b ?f = Some ?r"
    and e: "get_piece_at ?b ?t = None" and vt: "is_valid_position ?t" and ne: "?f \<noteq> ?t"
    by simp_all
  have v1: "valid_board (snd (move_piece ?b ?f ?t))"
    by (rule valid_board_after_move [OF start_valid_board vt])
  have "length (pieces (snd (move_piece ?b ?f ?t))) \<le> 32"
    using length_after_move [of ?b ?f ?t] by (simp add: start_length)
  then have "length (pieces (snd (move_piece ?b ?f ?t))) \<le> 2 ^ 20" by simp
  from evaluate_ok [OF v1 this] obtain ev where ev: "evaluate (snd (move_piece ?b ?f ?t)) = Inr ev"
    by blast
  note fr = get_move_evaluation_frame [OF start_one_piece_per_square r ne ev]
  from r have rin: "?r \<in> set (pieces ?b)" by (simp add: get_piece_at_SomeD)
  have ps: "pieces (snd (get_move_evaluation ?b ?f ?t)) = remove1 ?r (pieces ?b) @ [?r]"
    using fr(3) e by simp
  have s: "set (pieces (snd (get_move_evaluation ?b ?f ?t))) = set (pieces ?b)"
    unfolding ps using set_remove1_insert [OF rin] by simp
  have l: "length (pieces (snd (get_move_evaluation ?b ?f ?t))) = length (pieces ?b)"
    unfolding ps using rin by (simp add: length_remove1 start_length)
  from r fr(1) s l fr(2) show ?thesis by blast
qed

theorem get_move_evaluation_round_trip_on_start_witness:
  "get_piece_at new_ChessBoard ''e2'' = Some 4 \<and>
   (\<exists>res. fst (get_move_evaluation new_ChessBoard ''e2'' ''e4'') = Inr res) \<and>
   set (pieces (snd (get_move_evaluation new_ChessBoard ''e2'' ''e4''))) = set (pieces new_ChessBoard) \<and>
   heap (snd (get_move_evaluation new_ChessBoard ''e2'' ''e4''))
     = (heap new_ChessBoard)
         (4 := (heap new_ChessBoard 4)\<lparr>move_count := move_count (heap new_ChessBoard 4) + 1\<rparr>)"
proof -
  have m: "new_Move ''e2'' ''e4'' 4 False \<in> set (map (\<lambda>(f, t, r). new_Move f t r False)
       [(''a2'', ''a3'', 0), (''a2'', ''a4'', 0), (''b2'', ''b3'', 1), (''b2'', ''b4'', 1),
        (''c2'', ''c3'', 2), (''c2'', ''c4'', 2), (''d2'', ''d3'', 3), (''d2'', ''d4'', 3),
        (''e2'', ''e3'', 4), (''e2'', ''e4'', 4), (''f2'', ''f3'', 5), (''f2'', ''f4'', 5),
        (''g2'', ''g3'', 6), (''g2'', ''g4'', 6), (''h2'', ''h3'', 7), (''h2'', ''h4'', 7),
        (''b1'', ''a3'', 9), (''b1'', ''c3'', 9), (''g1'', ''f3'', 14), (''g1'', ''h3'', 14)])"
    by simp
  from get_move_evaluation_round_trip_on_start [OF start_white_moves m]
  show ?thesis by (simp add: new_Move_def)
qed


end
